theory Spec2Isabelle
  imports Main "HOL-Library.Multiset"
begin

section \<open>The Sudoku solver of Sudoko.js\<close>

text \<open>
  The solver works on the number board that \<open>handleSolve\<close> builds: an array of nine
  arrays of nine numbers, \<open>0\<close> for an empty cell. The board is a list of rows;
  \<open>board[i][j]\<close> is \<open>cell board i j\<close> and the assignment \<open>board[i][j] = v\<close> is
  \<open>set_cell board i j v\<close>, which returns the updated board. All loops of the source
  run over the indices 0..8, so every read and write is in range on a 9x9 board; the
  theorems below are stated for such boards (\<open>shape\<close>).
\<close>

type_synonym grid = "int list list"

definition cell :: "grid \<Rightarrow> nat \<Rightarrow> nat \<Rightarrow> int" where
  "cell board i j = board ! i ! j"

definition set_cell :: "grid \<Rightarrow> nat \<Rightarrow> nat \<Rightarrow> int \<Rightarrow> grid" where
  "set_cell board i j v = board[i := (board ! i)[j := v]]"

subsection \<open>isValid\<close>

text \<open>The row loop \<open>for (let j = 0; j < 9; j++) if (board[row][j] === num) return false\<close>,
  started at \<open>j\<close>; \<open>True\<close> means the loop ran to its end.\<close>

function row_loop :: "grid \<Rightarrow> nat \<Rightarrow> int \<Rightarrow> nat \<Rightarrow> bool" where
  "row_loop board row num j =
     (if j < 9 then
        (if cell board row j = num then False else row_loop board row num (j + 1))
      else True)"
  by pat_completeness auto
termination
  by (relation "measure (\<lambda>(board, row, num, j). 9 - j)") auto

text \<open>The column loop, started at \<open>i\<close>.\<close>

function col_loop :: "grid \<Rightarrow> nat \<Rightarrow> int \<Rightarrow> nat \<Rightarrow> bool" where
  "col_loop board col num i =
     (if i < 9 then
        (if cell board i col = num then False else col_loop board col num (i + 1))
      else True)"
  by pat_completeness auto
termination
  by (relation "measure (\<lambda>(board, col, num, i). 9 - i)") auto

text \<open>The two nested loops over the 3x3 box, started at \<open>(i, j)\<close>: the inner loop
  runs \<open>j\<close> up to \<open>boxCol + 3\<close>, then the outer loop steps \<open>i\<close> and restarts \<open>j\<close> at
  \<open>boxCol\<close>.\<close>

function box_loop :: "grid \<Rightarrow> nat \<Rightarrow> nat \<Rightarrow> int \<Rightarrow> nat \<Rightarrow> nat \<Rightarrow> bool" where
  "box_loop board boxRow boxCol num i j =
     (if i < boxRow + 3 then
        (if j < boxCol + 3 then
           (if cell board i j = num then False
            else box_loop board boxRow boxCol num i (j + 1))
         else box_loop board boxRow boxCol num (i + 1) boxCol)
      else True)"
  by pat_completeness auto
termination
  by (relation "measures [\<lambda>(board, boxRow, boxCol, num, i, j). boxRow + 3 - i,
                          \<lambda>(board, boxRow, boxCol, num, i, j). boxCol + 3 - j]") auto

definition isValid :: "grid \<Rightarrow> nat \<Rightarrow> nat \<Rightarrow> int \<Rightarrow> bool" where
  "isValid board row col num =
     (if \<not> row_loop board row num 0 then False
      else if \<not> col_loop board col num 0 then False
      else
        (let boxRow = (row div 3) * 3;
             boxCol = (col div 3) * 3
         in if \<not> box_loop board boxRow boxCol num boxRow boxCol then False
            else True))"

subsection \<open>findEmptyCell\<close>

text \<open>The nested scan, started at \<open>(i, j)\<close>; \<open>None\<close> is the source's \<open>null\<close>.\<close>

function scan_from :: "grid \<Rightarrow> nat \<Rightarrow> nat \<Rightarrow> (nat \<times> nat) option" where
  "scan_from board i j =
     (if i < 9 then
        (if j < 9 then
           (if cell board i j = 0 then Some (i, j) else scan_from board i (j + 1))
         else scan_from board (i + 1) 0)
      else None)"
  by pat_completeness auto
termination
  by (relation "measures [\<lambda>(board, i, j). 9 - i, \<lambda>(board, i, j). 9 - j]") auto

definition findEmptyCell :: "grid \<Rightarrow> (nat \<times> nat) option" where
  "findEmptyCell board = scan_from board 0 0"

subsection \<open>solveSudoku\<close>

text \<open>
  The candidate loop \<open>for (let num = 1; num <= 9; num++)\<close> of \<open>solveSudoku\<close>, started at
  \<open>num\<close>. The recursive call is the parameter \<open>rec\<close>; it returns the flag together with
  the board it leaves behind, and \<open>None\<close> when it does not return. The board is threaded
  through: after a failed recursive call the loop goes on with the board that call left,
  with the cell reset to 0.
\<close>

function try_from :: "(grid \<Rightarrow> (bool \<times> grid) option) \<Rightarrow> grid \<Rightarrow> nat \<Rightarrow> nat \<Rightarrow> int
    \<Rightarrow> (bool \<times> grid) option" where
  "try_from rec board row col num =
     (if num \<le> 9 then
        (if isValid board row col num then
           (case rec (set_cell board row col num) of
              None \<Rightarrow> None
            | Some (True, board') \<Rightarrow> Some (True, board')
            | Some (False, board') \<Rightarrow>
                try_from rec (set_cell board' row col 0) row col (num + 1))
         else try_from rec board row col (num + 1))
      else Some (False, board))"
  by pat_completeness auto
termination
  by (relation "measure (\<lambda>(rec, board, row, col, num). nat (10 - num))") auto

text \<open>
  \<open>solveSudoku\<close> with a bound on the recursion depth: \<open>solveSudoku k board\<close> is the result
  of the call when at most \<open>k\<close> nested calls are needed, and \<open>None\<close> otherwise.
\<close>

primrec solveSudoku :: "nat \<Rightarrow> grid \<Rightarrow> (bool \<times> grid) option" where
  "solveSudoku 0 = (\<lambda>board. None)"
| "solveSudoku (Suc k) = (\<lambda>board.
     (case findEmptyCell board of
        None \<Rightarrow> Some (True, board)
      | Some (row, col) \<Rightarrow> try_from (solveSudoku k) board row col 1))"

text \<open>A 9x9 board has 81 cells, so the recursion is at most 82 calls deep.\<close>

definition solve :: "grid \<Rightarrow> (bool \<times> grid) option" where
  "solve board = solveSudoku 82 board"

definition example :: grid where
  "example =
    [[5, 3, 0, 0, 7, 0, 0, 0, 0],
     [6, 0, 0, 1, 9, 5, 0, 0, 0],
     [0, 9, 8, 0, 0, 0, 0, 6, 0],
     [8, 0, 0, 0, 6, 0, 0, 0, 3],
     [4, 0, 0, 8, 0, 3, 0, 0, 1],
     [7, 0, 0, 0, 2, 0, 0, 0, 6],
     [0, 6, 0, 0, 0, 0, 2, 8, 0],
     [0, 0, 0, 4, 1, 9, 0, 0, 5],
     [0, 0, 0, 0, 8, 0, 0, 7, 9]]"

subsection \<open>solveSudoku with a log of its writes\<close>

text \<open>
  The same two functions, with every assignment \<open>board[row][col] = v\<close> recorded: the
  state is the board together with the list of writes made so far, and a write is
  recorded as (row, col, value the cell holds just before the write, value written).
\<close>

type_synonym cell_write = "nat \<times> nat \<times> int \<times> int"

function try_from_w :: "(grid \<times> cell_write list \<Rightarrow> (bool \<times> grid \<times> cell_write list) option)
    \<Rightarrow> grid \<times> cell_write list \<Rightarrow> nat \<Rightarrow> nat \<Rightarrow> int \<Rightarrow> (bool \<times> grid \<times> cell_write list) option" where
  "try_from_w rec (board, log) row col num =
     (if num \<le> 9 then
        (if isValid board row col num then
           (case rec (set_cell board row col num,
                      log @ [(row, col, cell board row col, num)]) of
              None \<Rightarrow> None
            | Some (True, st') \<Rightarrow> Some (True, st')
            | Some (False, board', log') \<Rightarrow>
                try_from_w rec (set_cell board' row col 0,
                                log' @ [(row, col, cell board' row col, 0)]) row col (num + 1))
         else try_from_w rec (board, log) row col (num + 1))
      else Some (False, board, log))"
  by pat_completeness auto
termination
  by (relation "measure (\<lambda>(rec, st, row, col, num). nat (10 - num))") auto

primrec solveSudoku_w :: "nat \<Rightarrow> grid \<times> cell_write list \<Rightarrow> (bool \<times> grid \<times> cell_write list) option" where
  "solveSudoku_w 0 = (\<lambda>st. None)"
| "solveSudoku_w (Suc k) = (\<lambda>st.
     (case findEmptyCell (fst st) of
        None \<Rightarrow> Some (True, st)
      | Some (row, col) \<Rightarrow> try_from_w (solveSudoku_w k) st row col 1))"

subsection \<open>Specification vocabulary\<close>

text \<open>The strict row-major order on cell coordinates.\<close>

definition before :: "nat \<times> nat \<Rightarrow> nat \<times> nat \<Rightarrow> bool" where
  "before p q = (fst p < fst q \<or> (fst p = fst q \<and> snd p < snd q))"

text \<open>Cell \<open>(i, j)\<close> lies in the 3x3 box of cell \<open>(row, col)\<close>.\<close>

definition in_box :: "nat \<Rightarrow> nat \<Rightarrow> nat \<Rightarrow> nat \<Rightarrow> bool" where
  "in_box row col i j = (i div 3 = row div 3 \<and> j div 3 = col div 3)"

text \<open>A 9x9 board: nine rows of nine cells.\<close>

definition shape :: "grid \<Rightarrow> bool" where
  "shape board = (length board = 9 \<and> (\<forall>row \<in> set board. length row = 9))"

text \<open>Two different cells that share a row, a column or a box.\<close>

definition peer :: "nat \<times> nat \<Rightarrow> nat \<times> nat \<Rightarrow> bool" where
  "peer p q = (p \<noteq> q \<and>
     (fst p = fst q \<or> snd p = snd q \<or> in_box (fst p) (snd p) (fst q) (snd q)))"

text \<open>
  \<open>board'\<close> completes \<open>board\<close>: it keeps the non-zero cells of \<open>board\<close>, and every cell
  that is empty in \<open>board\<close> holds a digit 1..9 in \<open>board'\<close> that differs from all other
  cells of its row, column and box. The non-zero cells of \<open>board\<close> are not compared with
  each other.
\<close>

definition completes :: "grid \<Rightarrow> grid \<Rightarrow> bool" where
  "completes board board' =
     (shape board' \<and>
      (\<forall>i < 9. \<forall>j < 9. cell board i j \<noteq> 0 \<longrightarrow> cell board' i j = cell board i j) \<and>
      (\<forall>i < 9. \<forall>j < 9. cell board i j = 0 \<longrightarrow>
         1 \<le> cell board' i j \<and> cell board' i j \<le> 9 \<and>
         (\<forall>i' < 9. \<forall>j' < 9. peer (i, j) (i', j') \<longrightarrow> cell board' i' j' \<noteq> cell board' i j)))"

text \<open>What the candidate loop needs of the recursive call: a true return completes the
  board it was given, a false return leaves that board as it was.\<close>

definition rec_ok :: "(grid \<Rightarrow> (bool \<times> grid) option) \<Rightarrow> bool" where
  "rec_ok rec = (\<forall>board ok board'. shape board \<longrightarrow> rec board = Some (ok, board') \<longrightarrow>
      (if ok then completes board board' else board' = board))"

subsection \<open>Concrete boards\<close>

text \<open>The completed example puzzle.\<close>

definition solution :: grid where
  "solution =
    [[5, 3, 4, 6, 7, 8, 9, 1, 2],
     [6, 7, 2, 1, 9, 5, 3, 4, 8],
     [1, 9, 8, 3, 4, 2, 5, 6, 7],
     [8, 5, 9, 7, 6, 1, 4, 2, 3],
     [4, 2, 6, 8, 5, 3, 7, 9, 1],
     [7, 1, 3, 9, 2, 4, 8, 5, 6],
     [9, 6, 1, 5, 3, 7, 2, 8, 4],
     [2, 8, 7, 4, 1, 9, 6, 3, 5],
     [3, 4, 5, 2, 8, 6, 1, 7, 9]]"

text \<open>A board on which the search places a digit at (0,0), fails at (0,1), backtracks,
  places the second digit, fails again and gives up.\<close>

definition stuck :: grid where
  "stuck =
    [[0, 0, 3, 4, 5, 6, 7, 8, 9],
     [0, 0, 0, 0, 0, 0, 0, 0, 0],
     [0, 0, 0, 0, 0, 0, 0, 0, 0],
     [0, 1, 0, 0, 0, 0, 0, 0, 0],
     [0, 2, 0, 0, 0, 0, 0, 0, 0],
     [0, 0, 0, 0, 0, 0, 0, 0, 0],
     [0, 0, 0, 0, 0, 0, 0, 0, 0],
     [0, 0, 0, 0, 0, 0, 0, 0, 0],
     [0, 0, 0, 0, 0, 0, 0, 0, 0]]"

text \<open>The completed example with three cells blanked.\<close>

definition almost :: grid where
  "almost =
    [[5, 3, 0, 6, 7, 8, 9, 1, 2],
     [6, 7, 2, 1, 9, 5, 3, 4, 8],
     [1, 9, 8, 3, 4, 2, 5, 6, 7],
     [8, 5, 9, 7, 6, 1, 4, 2, 3],
     [4, 2, 6, 8, 0, 3, 7, 9, 1],
     [7, 1, 3, 9, 2, 4, 8, 5, 6],
     [9, 6, 1, 5, 3, 7, 2, 8, 4],
     [2, 8, 7, 4, 1, 9, 6, 3, 5],
     [3, 4, 5, 2, 8, 6, 1, 7, 0]]"

text \<open>A board without zeros whose row 0 holds the digit 3 twice.\<close>

definition clash :: grid where
  "clash =
    [[3, 3, 4, 6, 7, 8, 9, 1, 2],
     [6, 7, 2, 1, 9, 5, 3, 4, 8],
     [1, 9, 8, 3, 4, 2, 5, 6, 7],
     [8, 5, 9, 7, 6, 1, 4, 2, 3],
     [4, 2, 6, 8, 5, 3, 7, 9, 1],
     [7, 1, 3, 9, 2, 4, 8, 5, 6],
     [9, 6, 1, 5, 3, 7, 2, 8, 4],
     [2, 8, 7, 4, 1, 9, 6, 3, 5],
     [3, 4, 5, 2, 8, 6, 1, 7, 9]]"

text \<open>Row 0 is \<open>[1,1,0,0,0,0,0,0,0]\<close>, all other cells are 0.\<close>

definition twin_ones :: grid where
  "twin_ones =
    [[1, 1, 0, 0, 0, 0, 0, 0, 0],
     [0, 0, 0, 0, 0, 0, 0, 0, 0],
     [0, 0, 0, 0, 0, 0, 0, 0, 0],
     [0, 0, 0, 0, 0, 0, 0, 0, 0],
     [0, 0, 0, 0, 0, 0, 0, 0, 0],
     [0, 0, 0, 0, 0, 0, 0, 0, 0],
     [0, 0, 0, 0, 0, 0, 0, 0, 0],
     [0, 0, 0, 0, 0, 0, 0, 0, 0],
     [0, 0, 0, 0, 0, 0, 0, 0, 0]]"

text \<open>Row 4 holds the digit 7 twice, all other cells are 0.\<close>

definition twin_sevens :: grid where
  "twin_sevens =
    [[0, 0, 0, 0, 0, 0, 0, 0, 0],
     [0, 0, 0, 0, 0, 0, 0, 0, 0],
     [0, 0, 0, 0, 0, 0, 0, 0, 0],
     [0, 0, 0, 0, 0, 0, 0, 0, 0],
     [0, 7, 0, 0, 0, 7, 0, 0, 0],
     [0, 0, 0, 0, 0, 0, 0, 0, 0],
     [0, 0, 0, 0, 0, 0, 0, 0, 0],
     [0, 0, 0, 0, 0, 0, 0, 0, 0],
     [0, 0, 0, 0, 0, 0, 0, 0, 0]]"

text \<open>The order in which the empty cells of the example are forced: each cell, when its
  turn comes, has exactly one digit that \<open>isValid\<close> accepts.\<close>

definition example_steps :: "(nat \<times> nat \<times> int) list" where
  "example_steps =
    [(4, 4, 5), (5, 3, 9), (6, 4, 3), (6, 5, 7), (6, 8, 4), (7, 7, 3), (2, 4, 4), (2, 5, 2),
     (2, 8, 7), (3, 3, 7), (4, 1, 2), (4, 7, 9), (6, 3, 5), (7, 0, 2), (7, 2, 7), (7, 6, 6),
     (8, 5, 6), (8, 6, 1), (0, 3, 6), (0, 5, 8), (0, 8, 2), (1, 7, 4), (1, 8, 8), (2, 0, 1),
     (2, 3, 3), (2, 6, 5), (3, 6, 4), (4, 2, 6), (4, 6, 7), (5, 6, 8), (5, 7, 5), (6, 0, 9),
     (6, 2, 1), (7, 1, 8), (8, 0, 3), (8, 3, 2), (0, 2, 4), (0, 6, 9), (0, 7, 1), (1, 1, 7),
     (1, 2, 2), (1, 6, 3), (3, 5, 1), (3, 7, 2), (5, 1, 1), (5, 2, 3), (5, 5, 4), (8, 2, 5),
     (3, 1, 5), (3, 2, 9), (8, 1, 4)]"

text \<open>The same board with its last cell blanked: row 0 still holds the digit 3 twice.\<close>

definition clash_open :: grid where
  "clash_open =
    [[3, 3, 4, 6, 7, 8, 9, 1, 2],
     [6, 7, 2, 1, 9, 5, 3, 4, 8],
     [1, 9, 8, 3, 4, 2, 5, 6, 7],
     [8, 5, 9, 7, 6, 1, 4, 2, 3],
     [4, 2, 6, 8, 5, 3, 7, 9, 1],
     [7, 1, 3, 9, 2, 4, 8, 5, 6],
     [9, 6, 1, 5, 3, 7, 2, 8, 4],
     [2, 8, 7, 4, 1, 9, 6, 3, 5],
     [3, 4, 5, 2, 8, 6, 1, 7, 0]]"

text \<open>The empty cells of a board in scan order, and their number.\<close>

definition empty_cells :: "grid \<Rightarrow> (nat \<times> nat) list" where
  "empty_cells board = filter (\<lambda>(i, j). cell board i j = 0) (List.product [0..<9] [0..<9])"

definition empty_count :: "grid \<Rightarrow> nat" where
  "empty_count board = length (empty_cells board)"

text \<open>A well-formed input board: 9x9, every cell in 0..9.\<close>

definition wf_grid :: "grid \<Rightarrow> bool" where
  "wf_grid board =
     (shape board \<and> (\<forall>i < 9. \<forall>j < 9. 0 \<le> cell board i j \<and> cell board i j \<le> 9))"

text \<open>The input invariant: a non-zero cell differs from every other cell of its row,
  its column and its box.\<close>

definition consistent :: "grid \<Rightarrow> bool" where
  "consistent board =
     (\<forall>i < 9. \<forall>j < 9. \<forall>i' < 9. \<forall>j' < 9.
        cell board i j \<noteq> 0 \<and> peer (i, j) (i', j') \<longrightarrow> cell board i' j' \<noteq> cell board i j)"

text \<open>The nine cells of row \<open>i\<close>, of column \<open>j\<close>, and of box \<open>b\<close> (boxes numbered
  row-major, cells within a box row-major).\<close>

definition row_cells :: "grid \<Rightarrow> nat \<Rightarrow> int list" where
  "row_cells board i = map (\<lambda>j. cell board i j) [0..<9]"

definition col_cells :: "grid \<Rightarrow> nat \<Rightarrow> int list" where
  "col_cells board j = map (\<lambda>i. cell board i j) [0..<9]"

definition box_cells :: "grid \<Rightarrow> nat \<Rightarrow> int list" where
  "box_cells board b =
     map (\<lambda>k. cell board (3 * (b div 3) + k div 3) (3 * (b mod 3) + k mod 3)) [0..<9]"

definition perm_1_9 :: "int list \<Rightarrow> bool" where
  "perm_1_9 xs = (mset xs = mset [1..9])"

text \<open>A solved board: no zero left, every row, column and box a permutation of 1..9.\<close>

definition solved :: "grid \<Rightarrow> bool" where
  "solved board =
     (shape board \<and>
      (\<forall>i < 9. \<forall>j < 9. cell board i j \<noteq> 0) \<and>
      (\<forall>i < 9. perm_1_9 (row_cells board i)) \<and>
      (\<forall>j < 9. perm_1_9 (col_cells board j)) \<and>
      (\<forall>b < 9. perm_1_9 (box_cells board b)))"

text \<open>Every cell differs from every other cell of its row, column and box.\<close>

definition all_differ :: "grid \<Rightarrow> bool" where
  "all_differ board =
     (\<forall>i < 9. \<forall>j < 9. \<forall>i' < 9. \<forall>j' < 9. peer (i, j) (i', j') \<longrightarrow> cell board i' j' \<noteq> cell board i j)"

text \<open>A call returns false only on a board that has no completion.\<close>

definition rec_complete :: "(grid \<Rightarrow> (bool \<times> grid) option) \<Rightarrow> bool" where
  "rec_complete rec = (\<forall>board b board'. shape board \<longrightarrow> rec board = Some (False, b) \<longrightarrow>
      \<not> completes board board')"

text \<open>\<open>board'\<close> keeps every non-zero cell of \<open>board\<close>.\<close>

definition extends :: "grid \<Rightarrow> grid \<Rightarrow> bool" where
  "extends board board' =
     (\<forall>i < 9. \<forall>j < 9. cell board i j \<noteq> 0 \<longrightarrow> cell board' i j = cell board i j)"

text \<open>The empty cell \<open>(i, j)\<close> has \<open>v\<close> as the only digit that \<open>isValid\<close> accepts.\<close>

definition only_candidate :: "grid \<Rightarrow> nat \<Rightarrow> nat \<Rightarrow> int \<Rightarrow> bool" where
  "only_candidate board i j v =
     (i < 9 \<and> j < 9 \<and> cell board i j = 0 \<and> 1 \<le> v \<and> v \<le> 9 \<and>
      list_all (\<lambda>n. n = v \<or> \<not> isValid board i j n) [1..9])"

text \<open>Filling a list of forced cells, checking each; \<open>None\<close> when a step is not forced.\<close>

fun fill_forced :: "grid \<Rightarrow> (nat \<times> nat \<times> int) list \<Rightarrow> grid option" where
  "fill_forced board [] = Some board"
| "fill_forced board ((i, j, v) # steps) =
     (if only_candidate board i j v then fill_forced (set_cell board i j v) steps else None)"

text \<open>The board after a list of writes, and the boards after each of them.\<close>

fun replay :: "grid \<Rightarrow> cell_write list \<Rightarrow> grid" where
  "replay cur [] = cur"
| "replay cur ((r, c, old, new) # ws) = replay (set_cell cur r c new) ws"

fun states :: "grid \<Rightarrow> cell_write list \<Rightarrow> grid list" where
  "states cur [] = []"
| "states cur ((r, c, old, new) # ws) = set_cell cur r c new # states (set_cell cur r c new) ws"

text \<open>
  A list of writes, made from the board \<open>cur\<close> onwards, respects the board \<open>entry\<close>:
  every write goes to a cell that is empty in \<open>entry\<close>, its recorded old value is the
  value the cell holds at that moment, a placement (a non-zero value) finds the cell
  holding 0 and writes a digit 1..9, and a reset (the value 0) finds a digit 1..9.
\<close>

fun writes_ok :: "grid \<Rightarrow> grid \<Rightarrow> cell_write list \<Rightarrow> bool" where
  "writes_ok entry cur [] = True"
| "writes_ok entry cur ((r, c, old, new) # ws) =
     (r < 9 \<and> c < 9 \<and> cell entry r c = 0 \<and> old = cell cur r c \<and>
      (if new = 0 then 1 \<le> old \<and> old \<le> 9 else old = 0 \<and> 1 \<le> new \<and> new \<le> 9) \<and>
      writes_ok entry (set_cell cur r c new) ws)"

definition rec_w_ok :: "(grid \<times> cell_write list \<Rightarrow> (bool \<times> grid \<times> cell_write list) option) \<Rightarrow> bool" where
  "rec_w_ok rec = (\<forall>board log ok board' log'. shape board \<longrightarrow>
      rec (board, log) = Some (ok, board', log') \<longrightarrow>
      (\<exists>ws. log' = log @ ws \<and> writes_ok board board ws \<and> board' = replay board ws) \<and>
      (\<not> ok \<longrightarrow> board' = board))"

text \<open>Forgetting the log.\<close>

definition erase :: "(bool \<times> grid \<times> cell_write list) option \<Rightarrow> (bool \<times> grid) option" where
  "erase res = map_option (\<lambda>(ok, board, log). (ok, board)) res"

section \<open>Properties of the model\<close>

subsection \<open>The loops of isValid and findEmptyCell, and the search\<close>

declare row_loop.simps [simp del] col_loop.simps [simp del] box_loop.simps [simp del]
  scan_from.simps [simp del] try_from.simps [simp del]

lemma all_from_step:
  "j < n \<Longrightarrow> (\<forall>j'. j \<le> j' \<and> j' < n \<longrightarrow> P j') \<longleftrightarrow> (P j \<and> (\<forall>j'. j + 1 \<le> j' \<and> j' < n \<longrightarrow> P j'))"
  for j n :: nat
proof
  assume "j < n" and "\<forall>j'. j \<le> j' \<and> j' < n \<longrightarrow> P j'"
  then show "P j \<and> (\<forall>j'. j + 1 \<le> j' \<and> j' < n \<longrightarrow> P j')" by simp
next
  assume a: "P j \<and> (\<forall>j'. j + 1 \<le> j' \<and> j' < n \<longrightarrow> P j')"
  show "\<forall>j'. j \<le> j' \<and> j' < n \<longrightarrow> P j'"
  proof (intro allI impI)
    fix j' assume b: "j \<le> j' \<and> j' < n"
    show "P j'"
    proof (cases "j' = j")
      case True with a show ?thesis by simp
    next
      case False
      with b have "j + 1 \<le> j'" by simp
      with a b show ?thesis by blast
    qed
  qed
qed

lemma row_loop_iff:
  "row_loop board row num j \<longleftrightarrow> (\<forall>j'. j \<le> j' \<and> j' < 9 \<longrightarrow> cell board row j' \<noteq> num)"
proof (induction board row num j rule: row_loop.induct)
  case (1 board row num j)
  show ?case
  proof (cases "j < 9")
    case True
    show ?thesis
    proof (cases "cell board row j = num")
      case True
      with \<open>j < 9\<close> show ?thesis by (subst row_loop.simps) auto
    next
      case False
      have "row_loop board row num j = row_loop board row num (j + 1)"
        using \<open>j < 9\<close> False by (subst row_loop.simps) simp
      also have "\<dots> \<longleftrightarrow> (\<forall>j'. j + 1 \<le> j' \<and> j' < 9 \<longrightarrow> cell board row j' \<noteq> num)"
        using "1.IH" \<open>j < 9\<close> False by simp
      also have "\<dots> \<longleftrightarrow> (\<forall>j'. j \<le> j' \<and> j' < 9 \<longrightarrow> cell board row j' \<noteq> num)"
        using False all_from_step [OF \<open>j < 9\<close>, of "\<lambda>j'. cell board row j' \<noteq> num"] by simp
      finally show ?thesis .
    qed
  next
    case False
    then show ?thesis by (subst row_loop.simps) auto
  qed
qed

lemma col_loop_iff:
  "col_loop board col num i \<longleftrightarrow> (\<forall>i'. i \<le> i' \<and> i' < 9 \<longrightarrow> cell board i' col \<noteq> num)"
proof (induction board col num i rule: col_loop.induct)
  case (1 board col num i)
  show ?case
  proof (cases "i < 9")
    case True
    show ?thesis
    proof (cases "cell board i col = num")
      case True
      with \<open>i < 9\<close> show ?thesis by (subst col_loop.simps) auto
    next
      case False
      have "col_loop board col num i = col_loop board col num (i + 1)"
        using \<open>i < 9\<close> False by (subst col_loop.simps) simp
      also have "\<dots> \<longleftrightarrow> (\<forall>i'. i + 1 \<le> i' \<and> i' < 9 \<longrightarrow> cell board i' col \<noteq> num)"
        using "1.IH" \<open>i < 9\<close> False by simp
      also have "\<dots> \<longleftrightarrow> (\<forall>i'. i \<le> i' \<and> i' < 9 \<longrightarrow> cell board i' col \<noteq> num)"
        using False all_from_step [OF \<open>i < 9\<close>, of "\<lambda>i'. cell board i' col \<noteq> num"] by simp
      finally show ?thesis .
    qed
  next
    case False
    then show ?thesis by (subst col_loop.simps) auto
  qed
qed

lemma box_loop_iff:
  "box_loop board boxRow boxCol num i j \<longleftrightarrow>
     (\<forall>i' j'. i' < boxRow + 3 \<and> j' < boxCol + 3 \<and>
        (i' = i \<and> j \<le> j' \<or> i < i' \<and> boxCol \<le> j') \<longrightarrow> cell board i' j' \<noteq> num)"
proof (induction board boxRow boxCol num i j rule: box_loop.induct)
  case (1 board boxRow boxCol num i j)
  show ?case
  proof (cases "i < boxRow + 3")
    case inrow: True
    show ?thesis
    proof (cases "j < boxCol + 3")
      case incol: True
      show ?thesis
      proof (cases "cell board i j = num")
        case True
        with inrow incol show ?thesis by (subst box_loop.simps) auto
      next
        case False
        have "box_loop board boxRow boxCol num i j = box_loop board boxRow boxCol num i (j + 1)"
          using inrow incol False by (subst box_loop.simps) simp
        also have "\<dots> \<longleftrightarrow> (\<forall>i' j'. i' < boxRow + 3 \<and> j' < boxCol + 3 \<and>
          (i' = i \<and> j + 1 \<le> j' \<or> i < i' \<and> boxCol \<le> j') \<longrightarrow> cell board i' j' \<noteq> num)"
          using "1.IH"(1) inrow incol False by simp
        also have "\<dots> \<longleftrightarrow> (\<forall>i' j'. i' < boxRow + 3 \<and> j' < boxCol + 3 \<and>
          (i' = i \<and> j \<le> j' \<or> i < i' \<and> boxCol \<le> j') \<longrightarrow> cell board i' j' \<noteq> num)"
          (is "?L \<longleftrightarrow> ?R")
        proof
          assume L: ?L
          show ?R
          proof (intro allI impI)
            fix i' j'
            assume a: "i' < boxRow + 3 \<and> j' < boxCol + 3 \<and>
              (i' = i \<and> j \<le> j' \<or> i < i' \<and> boxCol \<le> j')"
            show "cell board i' j' \<noteq> num"
            proof (cases "i' = i \<and> j' = j")
              case True
              with False show ?thesis by simp
            next
              case False
              with a have "i' = i \<and> j + 1 \<le> j' \<or> i < i' \<and> boxCol \<le> j'" by auto
              with a L show ?thesis by blast
            qed
          qed
        next
          assume R: ?R
          show ?L
          proof (intro allI impI)
            fix i' j'
            assume a: "i' < boxRow + 3 \<and> j' < boxCol + 3 \<and>
              (i' = i \<and> j + 1 \<le> j' \<or> i < i' \<and> boxCol \<le> j')"
            then have "i' = i \<and> j \<le> j' \<or> i < i' \<and> boxCol \<le> j'" by auto
            with a R show "cell board i' j' \<noteq> num" by blast
          qed
        qed
        finally show ?thesis .
      qed
    next
      case False
      have "box_loop board boxRow boxCol num i j = box_loop board boxRow boxCol num (i + 1) boxCol"
        using inrow False by (subst box_loop.simps) simp
      also have "\<dots> \<longleftrightarrow> (\<forall>i' j'. i' < boxRow + 3 \<and> j' < boxCol + 3 \<and>
          (i' = i + 1 \<and> boxCol \<le> j' \<or> i + 1 < i' \<and> boxCol \<le> j') \<longrightarrow> cell board i' j' \<noteq> num)"
        using "1.IH"(2) inrow False by simp
      also have "\<dots> \<longleftrightarrow> (\<forall>i' j'. i' < boxRow + 3 \<and> j' < boxCol + 3 \<and>
          (i' = i \<and> j \<le> j' \<or> i < i' \<and> boxCol \<le> j') \<longrightarrow> cell board i' j' \<noteq> num)"
        (is "?L \<longleftrightarrow> ?R")
      proof
        assume L: ?L
        show ?R
        proof (intro allI impI)
          fix i' j'
          assume a: "i' < boxRow + 3 \<and> j' < boxCol + 3 \<and>
            (i' = i \<and> j \<le> j' \<or> i < i' \<and> boxCol \<le> j')"
          with False have "i' = i + 1 \<and> boxCol \<le> j' \<or> i + 1 < i' \<and> boxCol \<le> j'" by auto
          with a L show "cell board i' j' \<noteq> num" by blast
        qed
      next
        assume R: ?R
        show ?L
        proof (intro allI impI)
          fix i' j'
          assume a: "i' < boxRow + 3 \<and> j' < boxCol + 3 \<and>
            (i' = i + 1 \<and> boxCol \<le> j' \<or> i + 1 < i' \<and> boxCol \<le> j')"
          then have "i' = i \<and> j \<le> j' \<or> i < i' \<and> boxCol \<le> j'" by auto
          with a R show "cell board i' j' \<noteq> num" by blast
        qed
      qed
      finally show ?thesis .
    qed
  next
    case False
    then show ?thesis by (subst box_loop.simps) auto
  qed
qed



lemma scan_from_None:
  "scan_from board i j = None \<longleftrightarrow>
     (\<forall>i' j'. i' < 9 \<and> j' < 9 \<and> \<not> before (i', j') (i, j) \<longrightarrow> cell board i' j' \<noteq> 0)"
proof (induction board i j rule: scan_from.induct)
  case (1 board i j)
  show ?case
  proof (cases "i < 9")
    case inrow: True
    show ?thesis
    proof (cases "j < 9")
      case incol: True
      show ?thesis
      proof (cases "cell board i j = 0")
        case True
        have "scan_from board i j = Some (i, j)"
          using inrow incol True by (subst scan_from.simps) simp
        moreover have "\<not> before (i, j) (i, j)" by (simp add: before_def)
        ultimately show ?thesis using inrow incol True by auto
      next
        case False
        have "scan_from board i j = scan_from board i (j + 1)"
          using inrow incol False by (subst scan_from.simps) simp
        moreover have "\<not> before (i', j') (i, j) \<longleftrightarrow> (i', j') = (i, j) \<or> \<not> before (i', j') (i, j + 1)"
          for i' j' by (auto simp: before_def)
        ultimately show ?thesis using "1.IH"(1) inrow incol False by auto
      qed
    next
      case False
      have "scan_from board i j = scan_from board (i + 1) 0"
        using inrow False by (subst scan_from.simps) simp
      moreover have "j' < 9 \<Longrightarrow> \<not> before (i', j') (i, j) \<longleftrightarrow> \<not> before (i', j') (i + 1, 0)"
        for i' j' using False by (auto simp: before_def)
      ultimately show ?thesis using "1.IH"(2) inrow False by auto
    qed
  next
    case False
    have "scan_from board i j = None" using False by (subst scan_from.simps) simp
    moreover have "i' < 9 \<Longrightarrow> before (i', j') (i, j)" for i' j'
      using False by (auto simp: before_def)
    ultimately show ?thesis by auto
  qed
qed

lemma scan_from_Some:
  "scan_from board i j = Some (r, c) \<Longrightarrow>
     r < 9 \<and> c < 9 \<and> cell board r c = 0 \<and> \<not> before (r, c) (i, j) \<and>
     (\<forall>i' j'. i' < 9 \<and> j' < 9 \<and> \<not> before (i', j') (i, j) \<and> before (i', j') (r, c)
        \<longrightarrow> cell board i' j' \<noteq> 0)"
proof (induction board i j rule: scan_from.induct)
  case (1 board i j)
  show ?case
  proof (cases "i < 9")
    case inrow: True
    show ?thesis
    proof (cases "j < 9")
      case incol: True
      show ?thesis
      proof (cases "cell board i j = 0")
        case True
        have "scan_from board i j = Some (i, j)"
          using inrow incol True by (subst scan_from.simps) simp
        with "1.prems" have "r = i" "c = j" by simp_all
        then show ?thesis using inrow incol True by (auto simp: before_def)
      next
        case False
        have "scan_from board i j = scan_from board i (j + 1)"
          using inrow incol False by (subst scan_from.simps) simp
        with "1.prems" have "scan_from board i (j + 1) = Some (r, c)" by simp
        from "1.IH"(1) [OF inrow incol False this]
        have ih: "r < 9 \<and> c < 9 \<and> cell board r c = 0 \<and> \<not> before (r, c) (i, j + 1) \<and>
          (\<forall>i' j'. i' < 9 \<and> j' < 9 \<and> \<not> before (i', j') (i, j + 1) \<and> before (i', j') (r, c)
            \<longrightarrow> cell board i' j' \<noteq> 0)" .
        have step: "\<not> before (i', j') (i, j) \<longleftrightarrow> (i', j') = (i, j) \<or> \<not> before (i', j') (i, j + 1)"
          for i' j' by (auto simp: before_def)
        show ?thesis using ih False unfolding step by auto
      qed
    next
      case False
      have "scan_from board i j = scan_from board (i + 1) 0"
        using inrow False by (subst scan_from.simps) simp
      with "1.prems" have "scan_from board (i + 1) 0 = Some (r, c)" by simp
      from "1.IH"(2) [OF inrow False this]
      have ih: "r < 9 \<and> c < 9 \<and> cell board r c = 0 \<and> \<not> before (r, c) (i + 1, 0) \<and>
          (\<forall>i' j'. i' < 9 \<and> j' < 9 \<and> \<not> before (i', j') (i + 1, 0) \<and> before (i', j') (r, c)
            \<longrightarrow> cell board i' j' \<noteq> 0)" .
      have step: "j' < 9 \<Longrightarrow> \<not> before (i', j') (i, j) \<longleftrightarrow> \<not> before (i', j') (i + 1, 0)"
        for i' j' using False by (auto simp: before_def)
      show ?thesis using ih step by blast
    qed
  next
    case False
    have "scan_from board i j = None" using False by (subst scan_from.simps) simp
    with "1.prems" show ?thesis by simp
  qed
qed

lemma before_origin [simp]: "\<not> before p (0, 0)"
  by (simp add: before_def)

lemma findEmptyCell_None:
  "findEmptyCell board = None \<longleftrightarrow> (\<forall>i j. i < 9 \<and> j < 9 \<longrightarrow> cell board i j \<noteq> 0)"
  by (simp add: findEmptyCell_def scan_from_None)

lemma findEmptyCell_Some:
  "findEmptyCell board = Some (r, c) \<Longrightarrow>
     r < 9 \<and> c < 9 \<and> cell board r c = 0 \<and>
     (\<forall>i j. i < 9 \<and> j < 9 \<and> before (i, j) (r, c) \<longrightarrow> cell board i j \<noteq> 0)"
  using scan_from_Some [of board 0 0 r c] by (simp add: findEmptyCell_def)

lemma before_total: "p = q \<or> before p q \<or> before q p"
  by (cases p; cases q) (auto simp: before_def)

lemma findEmptyCell_first:
  assumes "r < 9" "c < 9" "cell board r c = 0"
    and "\<forall>i j. i < 9 \<and> j < 9 \<and> before (i, j) (r, c) \<longrightarrow> cell board i j \<noteq> 0"
  shows "findEmptyCell board = Some (r, c)"
proof (cases "findEmptyCell board")
  case None
  with assms show ?thesis by (auto simp: findEmptyCell_None)
next
  case (Some p)
  obtain r' c' where p: "p = (r', c')" by (cases p)
  from findEmptyCell_Some [of board r' c'] Some p
  have f: "r' < 9" "c' < 9" "cell board r' c' = 0"
    "\<forall>i j. i < 9 \<and> j < 9 \<and> before (i, j) (r', c') \<longrightarrow> cell board i j \<noteq> 0" by auto
  from before_total [of "(r, c)" "(r', c')"] assms f have "(r, c) = (r', c')" by blast
  with Some p show ?thesis by simp
qed


lemma isValid_iff:
  "isValid board row col num \<longleftrightarrow>
     (\<forall>j < 9. cell board row j \<noteq> num) \<and>
     (\<forall>i < 9. cell board i col \<noteq> num) \<and>
     (\<forall>i j. in_box row col i j \<longrightarrow> cell board i j \<noteq> num)"
proof -
  have box: "i < row div 3 * 3 + 3 \<and> j < col div 3 * 3 + 3 \<and>
      (i = row div 3 * 3 \<and> col div 3 * 3 \<le> j \<or> row div 3 * 3 < i \<and> col div 3 * 3 \<le> j)
      \<longleftrightarrow> in_box row col i j" for i j
    unfolding in_box_def by auto
  show ?thesis
    unfolding isValid_def Let_def row_loop_iff col_loop_iff box_loop_iff box
    by auto
qed





lemma peer_sym: "peer p q \<Longrightarrow> peer q p"
  by (auto simp: peer_def in_box_def)

lemma shape_row: "shape board \<Longrightarrow> i < 9 \<Longrightarrow> length (board ! i) = 9"
  by (simp add: shape_def)

lemma shape_set_cell: "shape board \<Longrightarrow> shape (set_cell board i j v)"
proof -
  assume s: "shape board"
  show ?thesis
  proof (cases "i < 9")
    case True
    have "set (board[i := (board ! i)[j := v]]) \<subseteq> insert ((board ! i)[j := v]) (set board)"
      by (rule set_update_subset_insert)
    moreover have "length ((board ! i)[j := v]) = 9" using s True by (simp add: shape_row)
    ultimately show ?thesis using s by (auto simp: shape_def set_cell_def)
  next
    case False
    with s show ?thesis by (simp add: shape_def set_cell_def list_update_beyond)
  qed
qed

lemma cell_set_cell:
  "shape board \<Longrightarrow> i < 9 \<Longrightarrow> j < 9 \<Longrightarrow>
   cell (set_cell board i j v) i' j' = (if i' = i \<and> j' = j then v else cell board i' j')"
  by (auto simp: cell_def set_cell_def shape_def nth_list_update)

lemma set_cell_same: "cell board i j = v \<Longrightarrow> set_cell board i j v = board"
  by (auto simp: cell_def set_cell_def)

lemma set_cell_twice: "set_cell (set_cell board i j v) i j w = set_cell board i j w"
  by (cases "i < length board") (simp_all add: set_cell_def list_update_beyond)

lemma isValid_peer:
  assumes "isValid board row col num" "i < 9" "j < 9" "peer (row, col) (i, j)"
  shows "cell board i j \<noteq> num"
  using assms unfolding isValid_iff peer_def by auto

lemma completes_step:
  assumes sh: "shape board" and rc: "row < 9" "col < 9" and z: "cell board row col = 0"
    and v: "isValid board row col num" and n: "1 \<le> num" "num \<le> 9"
    and c: "completes (set_cell board row col num) board'"
  shows "completes board board'"
proof -
  let ?b = "set_cell board row col num"
  have get: "cell ?b i j = (if i = row \<and> j = col then num else cell board i j)" for i j
    using cell_set_cell [OF sh rc] by simp
  from c have sh': "shape board'"
    and keep: "\<And>i j. i < 9 \<Longrightarrow> j < 9 \<Longrightarrow> cell ?b i j \<noteq> 0 \<Longrightarrow> cell board' i j = cell ?b i j"
    and fill: "\<And>i j. i < 9 \<Longrightarrow> j < 9 \<Longrightarrow> cell ?b i j = 0 \<Longrightarrow>
         1 \<le> cell board' i j \<and> cell board' i j \<le> 9 \<and>
         (\<forall>i' < 9. \<forall>j' < 9. peer (i, j) (i', j') \<longrightarrow> cell board' i' j' \<noteq> cell board' i j)"
    unfolding completes_def by blast+
  have here: "cell board' row col = num"
    using keep [OF rc] n by (simp add: get)
  have kept: "cell board' i j = cell board i j" if "i < 9" "j < 9" "cell board i j \<noteq> 0" for i j
  proof -
    from that z have "\<not> (i = row \<and> j = col)" by auto
    with keep [OF that(1,2)] that(3) show ?thesis by (simp add: get)
  qed
  have filled: "1 \<le> cell board' i j \<and> cell board' i j \<le> 9 \<and>
         (\<forall>i' < 9. \<forall>j' < 9. peer (i, j) (i', j') \<longrightarrow> cell board' i' j' \<noteq> cell board' i j)"
    if ij: "i < 9" "j < 9" and zero: "cell board i j = 0" for i j
  proof (cases "i = row \<and> j = col")
    case False
    with fill [OF ij] zero show ?thesis by (simp add: get)
  next
    case True
    have "cell board' i' j' \<noteq> num" if p: "i' < 9" "j' < 9" "peer (row, col) (i', j')" for i' j'
    proof (cases "cell board i' j' = 0")
      case False
      from isValid_peer [OF v p] kept [OF p(1,2) False] show ?thesis by simp
    next
      case zero': True
      from p(3) have ne: "\<not> (i' = row \<and> j' = col)" by (auto simp: peer_def)
      with zero' have "cell ?b i' j' = 0" unfolding get by auto
      from fill [OF p(1,2) this] rc peer_sym [OF p(3)]
      have "cell board' row col \<noteq> cell board' i' j'" by blast
      with here show ?thesis by simp
    qed
    with True here n show ?thesis by simp
  qed
  show ?thesis unfolding completes_def using sh' kept filled by blast
qed

lemma completes_full:
  assumes "shape board" "\<forall>i j. i < 9 \<and> j < 9 \<longrightarrow> cell board i j \<noteq> 0"
  shows "completes board board"
  using assms by (simp add: completes_def)


lemma rec_okD:
  "rec_ok rec \<Longrightarrow> shape board \<Longrightarrow> rec board = Some (ok, board') \<Longrightarrow>
     (if ok then completes board board' else board' = board)"
  unfolding rec_ok_def by blast

lemma try_from_ok:
  "rec_ok rec \<Longrightarrow> shape board \<Longrightarrow> row < 9 \<Longrightarrow> col < 9 \<Longrightarrow> cell board row col = 0 \<Longrightarrow> 1 \<le> num \<Longrightarrow>
     try_from rec board row col num = Some (ok, board') \<Longrightarrow>
     (if ok then completes board board' else board' = board)"
proof (induction rec board row col num rule: try_from.induct)
  case (1 rec board row col num)
  note r = \<open>rec_ok rec\<close> and sh = \<open>shape board\<close> and rc = \<open>row < 9\<close> \<open>col < 9\<close>
    and z = \<open>cell board row col = 0\<close>
    and res = \<open>try_from rec board row col num = Some (ok, board')\<close>
  show ?case
  proof (cases "num \<le> 9")
    case False
    then have "try_from rec board row col num = Some (False, board)"
      by (subst try_from.simps) simp
    with res show ?thesis by simp
  next
    case le: True
    show ?thesis
    proof (cases "isValid board row col num")
      case False
      then have "try_from rec board row col num = try_from rec board row col (num + 1)"
        using le by (subst try_from.simps) simp
      with res have "try_from rec board row col (num + 1) = Some (ok, board')" by simp
      from "1.IH"(2) [OF le False r sh rc z _ this] \<open>1 \<le> num\<close> show ?thesis by simp
    next
      case valid: True
      let ?b = "set_cell board row col num"
      have unf: "try_from rec board row col num =
         (case rec ?b of None \<Rightarrow> None
          | Some (True, b') \<Rightarrow> Some (True, b')
          | Some (False, b') \<Rightarrow> try_from rec (set_cell b' row col 0) row col (num + 1))"
        using le valid by (subst try_from.simps) simp
      have shb: "shape ?b" using sh by (rule shape_set_cell)
      show ?thesis
      proof (cases "rec ?b")
        case None
        with unf res show ?thesis by simp
      next
        case (Some x)
        obtain ok1 b1 where x: "x = (ok1, b1)" by (cases x)
        show ?thesis
        proof (cases ok1)
          case True
          with unf Some x res have eq: "ok = True" "board' = b1" by simp_all
          from rec_okD [OF r shb, of ok1 b1] Some x True have "completes ?b b1" by auto
          from completes_step [OF sh rc z valid \<open>1 \<le> num\<close> le this] eq show ?thesis by simp
        next
          case False
          from rec_okD [OF r shb, of ok1 b1] Some x False have "b1 = ?b" by auto
          then have restored: "set_cell b1 row col 0 = board"
            using z by (simp add: set_cell_twice set_cell_same)
          from unf Some x False res
          have nxt: "try_from rec (set_cell b1 row col 0) row col (num + 1) = Some (ok, board')"
            by simp
          have x': "x = (False, b1)" using x False by simp
          have "if ok then completes (set_cell b1 row col 0) board'
             else board' = set_cell b1 row col 0"
          proof (rule "1.IH"(1) [OF le valid Some x' [symmetric] _ r _ rc _ _ nxt])
            show "shape (set_cell b1 row col 0)" using restored sh by simp
            show "cell (set_cell b1 row col 0) row col = 0" using restored z by simp
            show "1 \<le> num + 1" using \<open>1 \<le> num\<close> by simp
          qed simp
          then show ?thesis unfolding restored .
        qed
      qed
    qed
  qed
qed


lemma solveSudoku_ok: "rec_ok (solveSudoku k)"
proof (induction k)
  case 0
  show ?case by (simp add: rec_ok_def)
next
  case (Suc k)
  show ?case
    unfolding rec_ok_def
  proof (intro allI impI)
    fix board ok board'
    assume sh: "shape board" and res: "solveSudoku (Suc k) board = Some (ok, board')"
    show "if ok then completes board board' else board' = board"
    proof (cases "findEmptyCell board")
      case None
      with res have "ok" "board' = board" by simp_all
      moreover from None sh have "completes board board"
        by (simp add: findEmptyCell_None completes_full)
      ultimately show ?thesis by simp
    next
      case (Some p)
      obtain row col where p: "p = (row, col)" by (cases p)
      from findEmptyCell_Some [of board row col] Some p
      have rc: "row < 9" "col < 9" and z: "cell board row col = 0" by simp_all
      from res Some p have "try_from (solveSudoku k) board row col 1 = Some (ok, board')"
        by simp
      from try_from_ok [OF Suc sh rc z _ this] show ?thesis by simp
    qed
  qed
qed

lemma solveSudoku_True:
  "shape board \<Longrightarrow> solveSudoku k board = Some (True, board') \<Longrightarrow> completes board board'"
  using rec_okD [OF solveSudoku_ok, of board k True board'] by simp

lemma solveSudoku_False:
  "shape board \<Longrightarrow> solveSudoku k board = Some (False, board') \<Longrightarrow> board' = board"
  using rec_okD [OF solveSudoku_ok, of board k False board'] by simp


subsection \<open>The search returns\<close>

lemma in_all_cells: "(i, j) \<in> set (List.product [0..<9] [0..<9]) \<longleftrightarrow> i < 9 \<and> j < 9"
  by auto

lemma empty_count_le: "empty_count board \<le> 81"
proof -
  have "length (empty_cells board) \<le> length (List.product [0..<9] [0..<9::nat])"
    unfolding empty_cells_def by (rule length_filter_le)
  then show ?thesis by (simp add: empty_count_def)
qed

lemma empty_count_set_cell:
  assumes sh: "shape board" and rc: "row < 9" "col < 9" and z: "cell board row col = 0"
    and n: "num \<noteq> 0"
  shows "empty_count (set_cell board row col num) < empty_count board"
proof -
  let ?xs = "List.product [0..<9] [0..<9::nat]"
  let ?P = "\<lambda>(i, j). cell board i j = 0"
  have "filter (\<lambda>(i, j). cell (set_cell board row col num) i j = 0) ?xs
      = filter (\<lambda>p. ?P p \<and> p \<noteq> (row, col)) ?xs"
    by (rule filter_cong) (use n in \<open>auto simp: cell_set_cell [OF sh rc]\<close>)
  also have "\<dots> = filter (\<lambda>p. p \<noteq> (row, col)) (filter ?P ?xs)"
    by simp
  finally have eq: "empty_cells (set_cell board row col num)
      = filter (\<lambda>p. p \<noteq> (row, col)) (empty_cells board)"
    by (simp add: empty_cells_def)
  have "(row, col) \<in> set (empty_cells board)"
    using rc z by (simp add: empty_cells_def)
  then have "length (filter (\<lambda>p. p \<noteq> (row, col)) (empty_cells board)) < length (empty_cells board)"
    by (rule length_filter_less) simp
  with eq show ?thesis by (simp add: empty_count_def)
qed

lemma try_from_total:
  "rec_ok rec \<Longrightarrow> (\<forall>b. shape b \<and> empty_count b < n \<longrightarrow> rec b \<noteq> None) \<Longrightarrow>
   shape board \<Longrightarrow> row < 9 \<Longrightarrow> col < 9 \<Longrightarrow> cell board row col = 0 \<Longrightarrow> empty_count board \<le> n \<Longrightarrow>
   1 \<le> num \<Longrightarrow> try_from rec board row col num \<noteq> None"
proof (induction rec board row col num rule: try_from.induct)
  case (1 rec board row col num)
  note r = \<open>rec_ok rec\<close> and sh = \<open>shape board\<close> and rc = \<open>row < 9\<close> \<open>col < 9\<close>
    and z = \<open>cell board row col = 0\<close> and tot = "1.prems"(2) and cnt = \<open>empty_count board \<le> n\<close>
  show ?case
  proof (cases "num \<le> 9")
    case False
    then show ?thesis by (subst try_from.simps) simp
  next
    case le: True
    show ?thesis
    proof (cases "isValid board row col num")
      case False
      then have "try_from rec board row col num = try_from rec board row col (num + 1)"
        using le by (subst try_from.simps) simp
      moreover have "try_from rec board row col (num + 1) \<noteq> None"
        by (rule "1.IH"(2) [OF le False r tot sh rc z cnt]) (use \<open>1 \<le> num\<close> in simp)
      ultimately show ?thesis by simp
    next
      case valid: True
      let ?b = "set_cell board row col num"
      have unf: "try_from rec board row col num =
         (case rec ?b of None \<Rightarrow> None
          | Some (True, b') \<Rightarrow> Some (True, b')
          | Some (False, b') \<Rightarrow> try_from rec (set_cell b' row col 0) row col (num + 1))"
        using le valid by (subst try_from.simps) simp
      have shb: "shape ?b" using sh by (rule shape_set_cell)
      have "empty_count ?b < empty_count board"
        by (rule empty_count_set_cell [OF sh rc z]) (use \<open>1 \<le> num\<close> in simp)
      with cnt have "empty_count ?b < n" by simp
      with tot shb have "rec ?b \<noteq> None" by blast
      then obtain x where some: "rec ?b = Some x" by blast
      obtain ok1 b1 where x: "x = (ok1, b1)" by (cases x)
      show ?thesis
      proof (cases ok1)
        case True
        with unf some x show ?thesis by simp
      next
        case False
        from rec_okD [OF r shb, of ok1 b1] some x False have "b1 = ?b" by auto
        then have restored: "set_cell b1 row col 0 = board"
          using z by (simp add: set_cell_twice set_cell_same)
        have x': "x = (False, b1)" using x False by simp
        have "try_from rec (set_cell b1 row col 0) row col (num + 1) \<noteq> None"
        proof (rule "1.IH"(1) [OF le valid some x' [symmetric] _ r tot _ rc])
          show "shape (set_cell b1 row col 0)" using restored sh by simp
          show "cell (set_cell b1 row col 0) row col = 0" using restored z by simp
          show "empty_count (set_cell b1 row col 0) \<le> n" using restored cnt by simp
          show "1 \<le> num + 1" using \<open>1 \<le> num\<close> by simp
        qed simp
        with unf some x False show ?thesis by simp
      qed
    qed
  qed
qed

lemma solveSudoku_total:
  "shape board \<Longrightarrow> empty_count board < k \<Longrightarrow> solveSudoku k board \<noteq> None"
proof (induction k arbitrary: board)
  case 0
  then show ?case by simp
next
  case (Suc k)
  show ?case
  proof (cases "findEmptyCell board")
    case None
    then show ?thesis by simp
  next
    case (Some p)
    obtain row col where p: "p = (row, col)" by (cases p)
    from findEmptyCell_Some [of board row col] Some p
    have rc: "row < 9" "col < 9" and z: "cell board row col = 0" by simp_all
    have "try_from (solveSudoku k) board row col 1 \<noteq> None"
    proof (rule try_from_total [OF solveSudoku_ok _ \<open>shape board\<close> rc z, of k])
      show "\<forall>b. shape b \<and> empty_count b < k \<longrightarrow> solveSudoku k b \<noteq> None"
        using Suc.IH by blast
      show "empty_count board \<le> k" using Suc.prems(2) by simp
    qed simp
    with Some p show ?thesis by simp
  qed
qed

lemma try_from_mono:
  "(\<forall>b r. rec b = Some r \<longrightarrow> rec' b = Some r) \<Longrightarrow>
   try_from rec board row col num = Some r \<Longrightarrow> try_from rec' board row col num = Some r"
proof (induction rec board row col num rule: try_from.induct)
  case (1 rec board row col num)
  note m = "1.prems"(1) and res = "1.prems"(2)
  show ?case
  proof (cases "num \<le> 9")
    case False
    with res show ?thesis by (subst try_from.simps, subst (asm) try_from.simps) simp
  next
    case le: True
    show ?thesis
    proof (cases "isValid board row col num")
      case False
      then have u: "try_from f board row col num = try_from f board row col (num + 1)" for f
        using le by (subst try_from.simps) simp
      from res have "try_from rec board row col (num + 1) = Some r" by (simp add: u)
      from "1.IH"(2) [OF le False m this] show ?thesis by (simp add: u)
    next
      case valid: True
      let ?b = "set_cell board row col num"
      have unf: "try_from f board row col num =
         (case f ?b of None \<Rightarrow> None
          | Some (True, b') \<Rightarrow> Some (True, b')
          | Some (False, b') \<Rightarrow> try_from f (set_cell b' row col 0) row col (num + 1))" for f
        using le valid by (subst try_from.simps) simp
      show ?thesis
      proof (cases "rec ?b")
        case None
        with res unf [of rec] show ?thesis by simp
      next
        case (Some x)
        obtain ok1 b1 where x: "x = (ok1, b1)" by (cases x)
        from m Some have some': "rec' ?b = Some x" by blast
        show ?thesis
        proof (cases ok1)
          case True
          with res unf [of rec] Some x have "r = (True, b1)" by simp
          with unf [of rec'] some' x True show ?thesis by simp
        next
          case False
          have x': "x = (False, b1)" using x False by simp
          from res unf [of rec] Some x'
          have "try_from rec (set_cell b1 row col 0) row col (num + 1) = Some r" by simp
          from "1.IH"(1) [OF le valid Some x' [symmetric] _ m this]
          have "try_from rec' (set_cell b1 row col 0) row col (num + 1) = Some r" by simp
          with unf [of rec'] some' x' show ?thesis by simp
        qed
      qed
    qed
  qed
qed

lemma solveSudoku_Suc:
  "solveSudoku k board = Some r \<Longrightarrow> solveSudoku (Suc k) board = Some r"
proof (induction k arbitrary: board r)
  case 0
  then show ?case by simp
next
  case (Suc k)
  show ?case
  proof (cases "findEmptyCell board")
    case None
    with Suc.prems show ?thesis by simp
  next
    case (Some p)
    obtain row col where p: "p = (row, col)" by (cases p)
    from Suc.prems Some p have "try_from (solveSudoku k) board row col 1 = Some r" by simp
    then have "try_from (solveSudoku (Suc k)) board row col 1 = Some r"
      by (rule try_from_mono [rotated]) (use Suc.IH in blast)
    with Some p show ?thesis by simp
  qed
qed

lemma solveSudoku_mono:
  "k \<le> k' \<Longrightarrow> solveSudoku k board = Some r \<Longrightarrow> solveSudoku k' board = Some r"
  by (induction k' rule: dec_induct) (simp_all add: solveSudoku_Suc del: solveSudoku.simps)

lemma solveSudoku_enough:
  assumes sh: "shape board" and k: "empty_count board < k" and k': "empty_count board < k'"
  shows "solveSudoku k board = solveSudoku k' board"
proof -
  from solveSudoku_total [OF sh k] obtain r where r: "solveSudoku k board = Some r" by blast
  from solveSudoku_total [OF sh k'] obtain r' where r': "solveSudoku k' board = Some r'" by blast
  show ?thesis
  proof (cases "k \<le> k'")
    case True
    from solveSudoku_mono [OF True r] r show ?thesis by simp
  next
    case False
    then have "k' \<le> k" by simp
    from solveSudoku_mono [OF this r'] r' show ?thesis by simp
  qed
qed


subsection \<open>A completed consistent board is solved\<close>

lemma unit_perm:
  assumes pos: "\<And>k. k < 9 \<Longrightarrow> f k < 9 \<and> g k < 9"
    and prs: "\<And>k k'. k < 9 \<Longrightarrow> k' < 9 \<Longrightarrow> k \<noteq> k' \<Longrightarrow> peer (f k, g k) (f k', g k')"
    and diff: "all_differ board"
    and rng: "\<And>i j. i < 9 \<Longrightarrow> j < 9 \<Longrightarrow> 1 \<le> cell board i j \<and> cell board i j \<le> 9"
  shows "perm_1_9 (map (\<lambda>k. cell board (f k) (g k)) [0..<9])"
proof -
  let ?h = "\<lambda>k. cell board (f k) (g k)"
  let ?xs = "map ?h [0..<9]"
  have inj: "inj_on ?h (set [0..<9])"
  proof (rule inj_onI)
    fix k k' assume k: "k \<in> set [0..<9]" "k' \<in> set [0..<9]" and eq: "?h k = ?h k'"
    show "k = k'"
    proof (rule ccontr)
      assume ne: "k \<noteq> k'"
      from k have lt: "k < 9" "k' < 9" by simp_all
      from prs [OF lt ne] pos [OF lt(1)] pos [OF lt(2)] diff
      have "cell board (f k') (g k') \<noteq> cell board (f k) (g k)"
        unfolding all_differ_def by blast
      with eq show False by simp
    qed
  qed
  have d: "distinct ?xs" using inj by (simp add: distinct_map)
  have sub: "set ?xs \<subseteq> {1..9}" using pos rng by auto
  have "card (set ?xs) = 9" using distinct_card [OF d] by simp
  moreover have "card {1..9::int} = 9" by simp
  ultimately have "set ?xs = {1..9}" using sub by (intro card_subset_eq) simp_all
  then have "set ?xs = set [1..9]" by simp
  with d have "mset ?xs = mset [1..9]"
    using set_eq_iff_mset_eq_distinct [of ?xs "[1..9]"] by simp
  then show ?thesis by (simp add: perm_1_9_def)
qed

lemma box_pos:
  fixes b k :: nat
  assumes "b < 9" "k < 9"
  shows "3 * (b div 3) + k div 3 < 9 \<and> 3 * (b mod 3) + k mod 3 < 9"
proof -
  have "b div 3 < 3" "k div 3 < 3" "b mod 3 < 3" "k mod 3 < 3" using assms by simp_all
  then show ?thesis by linarith
qed

lemma box_peer:
  fixes a c k k' :: nat
  assumes "k < 9" "k' < 9" "k \<noteq> k'"
  shows "peer (3 * a + k div 3, 3 * c + k mod 3) (3 * a + k' div 3, 3 * c + k' mod 3)"
proof -
  have "k div 3 < 3" "k' div 3 < 3" using assms by simp_all
  then have "(3 * a + k div 3) div 3 = a" "(3 * a + k' div 3) div 3 = a"
    "(3 * c + k mod 3) div 3 = c" "(3 * c + k' mod 3) div 3 = c"
    by simp_all
  moreover have "k div 3 \<noteq> k' div 3 \<or> k mod 3 \<noteq> k' mod 3"
    using assms(3) by (metis div_mult_mod_eq)
  ultimately show ?thesis by (auto simp: peer_def in_box_def)
qed

lemma all_differ_solved:
  assumes sh: "shape board" and diff: "all_differ board"
    and rng: "\<And>i j. i < 9 \<Longrightarrow> j < 9 \<Longrightarrow> 1 \<le> cell board i j \<and> cell board i j \<le> 9"
  shows "solved board"
proof -
  have nz: "\<forall>i < 9. \<forall>j < 9. cell board i j \<noteq> 0" using rng by fastforce
  have rows: "perm_1_9 (row_cells board i)" if "i < 9" for i
    unfolding row_cells_def
    by (rule unit_perm [where f = "\<lambda>k. i" and g = "\<lambda>k. k", OF _ _ diff rng])
       (use that in \<open>auto simp: peer_def\<close>)
  have cols: "perm_1_9 (col_cells board j)" if "j < 9" for j
    unfolding col_cells_def
    by (rule unit_perm [where f = "\<lambda>k. k" and g = "\<lambda>k. j", OF _ _ diff rng])
       (use that in \<open>auto simp: peer_def\<close>)
  have boxes: "perm_1_9 (box_cells board b)" if "b < 9" for b
    unfolding box_cells_def
    by (rule unit_perm [where f = "\<lambda>k. 3 * (b div 3) + k div 3"
          and g = "\<lambda>k. 3 * (b mod 3) + k mod 3", OF _ _ diff rng])
       (use that box_pos box_peer in \<open>blast+\<close>)
  show ?thesis unfolding solved_def using sh nz rows cols boxes by blast
qed

lemma completes_solved:
  assumes wf: "wf_grid board" and con: "consistent board" and c: "completes board board'"
  shows "solved board'"
proof (rule all_differ_solved)
  from c show "shape board'" by (simp add: completes_def)
  from c have keep: "\<And>i j. i < 9 \<Longrightarrow> j < 9 \<Longrightarrow> cell board i j \<noteq> 0 \<Longrightarrow> cell board' i j = cell board i j"
    and fill: "\<And>i j. i < 9 \<Longrightarrow> j < 9 \<Longrightarrow> cell board i j = 0 \<Longrightarrow>
         1 \<le> cell board' i j \<and> cell board' i j \<le> 9 \<and>
         (\<forall>i' < 9. \<forall>j' < 9. peer (i, j) (i', j') \<longrightarrow> cell board' i' j' \<noteq> cell board' i j)"
    unfolding completes_def by blast+
  show "1 \<le> cell board' i j \<and> cell board' i j \<le> 9" if ij: "i < 9" "j < 9" for i j
  proof (cases "cell board i j = 0")
    case True
    with fill [OF ij] show ?thesis by simp
  next
    case False
    moreover from wf ij have "0 \<le> cell board i j \<and> cell board i j \<le> 9"
      by (simp add: wf_grid_def)
    ultimately show ?thesis using keep [OF ij] by simp
  qed
  show "all_differ board'"
    unfolding all_differ_def
  proof (intro allI impI)
    fix i j i' j'
    assume ij: "i < 9" "j < 9" and ij': "i' < 9" "j' < 9" and p: "peer (i, j) (i', j')"
    show "cell board' i' j' \<noteq> cell board' i j"
    proof (cases "cell board i j = 0")
      case True
      with fill [OF ij] ij' p show ?thesis by blast
    next
      case nz: False
      show ?thesis
      proof (cases "cell board i' j' = 0")
        case True
        with fill [OF ij'] ij peer_sym [OF p] have "cell board' i j \<noteq> cell board' i' j'" by blast
        then show ?thesis by simp
      next
        case False
        from con ij ij' nz p have "cell board i' j' \<noteq> cell board i j"
          unfolding consistent_def by blast
        with keep [OF ij nz] keep [OF ij' False] show ?thesis by simp
      qed
    qed
  qed
qed


subsection \<open>Evaluation on concrete boards\<close>

text \<open>Quantifiers over the 81 cells as list traversals, for evaluating concrete boards.\<close>

lemma all_lt9: "(\<forall>i < 9. P i) \<longleftrightarrow> list_all P [0..<9]"
  by (auto simp: list_all_iff)

lemma all_cells_iff:
  "(\<forall>i < 9. \<forall>j < 9. P i j) \<longleftrightarrow> list_all (\<lambda>(i, j). P i j) (List.product [0..<9] [0..<9])"
  by (auto simp: list_all_iff)

lemma isValid_blank:
  assumes sh: "shape board" and ij: "i < 9" "j < 9" and v: "v \<noteq> 0"
  shows "isValid (set_cell board i j 0) i j v \<longleftrightarrow>
     (\<forall>i' < 9. \<forall>j' < 9. peer (i, j) (i', j') \<longrightarrow> cell board i' j' \<noteq> v)"
proof -
  have get: "cell (set_cell board i j 0) i' j' = (if i' = i \<and> j' = j then 0 else cell board i' j')"
    for i' j' using cell_set_cell [OF sh ij] by simp
  have bi: "i' div 3 = i div 3 \<Longrightarrow> i' < 9" for i' using ij(1) by presburger
  have bj: "j' div 3 = j div 3 \<Longrightarrow> j' < 9" for j' using ij(2) by presburger
  show ?thesis
  proof
    assume a: "isValid (set_cell board i j 0) i j v"
    show "\<forall>i' < 9. \<forall>j' < 9. peer (i, j) (i', j') \<longrightarrow> cell board i' j' \<noteq> v"
    proof (intro allI impI)
      fix i' j' assume b: "i' < 9" "j' < 9" "peer (i, j) (i', j')"
      from isValid_peer [OF a b] b(3) show "cell board i' j' \<noteq> v"
        by (auto simp: get peer_def)
    qed
  next
    assume a: "\<forall>i' < 9. \<forall>j' < 9. peer (i, j) (i', j') \<longrightarrow> cell board i' j' \<noteq> v"
    have "cell (set_cell board i j 0) i' j' \<noteq> v"
      if "i' < 9" "j' < 9" "i' = i \<or> j' = j \<or> in_box i j i' j'" for i' j'
    proof (cases "i' = i \<and> j' = j")
      case True
      with v show ?thesis by (simp add: get)
    next
      case False
      with that have "peer (i, j) (i', j')" by (auto simp: peer_def)
      with a that have "cell board i' j' \<noteq> v" by blast
      with False show ?thesis unfolding get by auto
    qed
    then show "isValid (set_cell board i j 0) i j v"
      unfolding isValid_iff using ij bi bj by (auto simp: in_box_def)
  qed
qed

lemma consistent_code:
  assumes sh: "shape board"
  shows "consistent board \<longleftrightarrow>
     list_all (\<lambda>(i, j). cell board i j = 0 \<or> isValid (set_cell board i j 0) i j (cell board i j))
       (List.product [0..<9] [0..<9])"
proof -
  have "consistent board \<longleftrightarrow>
     (\<forall>i < 9. \<forall>j < 9. cell board i j = 0 \<or>
        (\<forall>i' < 9. \<forall>j' < 9. peer (i, j) (i', j') \<longrightarrow> cell board i' j' \<noteq> cell board i j))"
    unfolding consistent_def by blast
  also have "\<dots> \<longleftrightarrow>
     (\<forall>i < 9. \<forall>j < 9. cell board i j = 0 \<or> isValid (set_cell board i j 0) i j (cell board i j))"
    using isValid_blank [OF sh] by blast
  finally show ?thesis unfolding all_cells_iff .
qed

lemma wf_grid_code:
  "wf_grid board \<longleftrightarrow> shape board \<and>
     list_all (\<lambda>(i, j). 0 \<le> cell board i j \<and> cell board i j \<le> 9) (List.product [0..<9] [0..<9])"
  unfolding wf_grid_def all_cells_iff ..

lemma no_zero_code:
  "(\<forall>i < 9. \<forall>j < 9. cell board i j \<noteq> 0) \<longleftrightarrow> findEmptyCell board = None"
  by (auto simp: findEmptyCell_None)

lemma shape_example: "shape example"
  by (simp add: shape_def example_def)

lemma shape_solution: "shape solution"
  by (simp add: shape_def solution_def)

lemma shape_stuck: "shape stuck"
  by (simp add: shape_def stuck_def)

subsection \<open>A false return means that there is no completion\<close>

lemma isValid_false_peer:
  assumes sh: "shape board" and ij: "i < 9" "j < 9" and z: "cell board i j = 0"
    and n: "n \<noteq> 0" and inv: "\<not> isValid board i j n"
  shows "\<exists>i' < 9. \<exists>j' < 9. peer (i, j) (i', j') \<and> cell board i' j' = n"
proof -
  have bi: "i' div 3 = i div 3 \<Longrightarrow> i' < 9" for i' using ij(1) by presburger
  have bj: "j' div 3 = j div 3 \<Longrightarrow> j' < 9" for j' using ij(2) by presburger
  from inv obtain i' j' where c: "cell board i' j' = n"
    and u: "i' = i \<and> j' < 9 \<or> j' = j \<and> i' < 9 \<or> in_box i j i' j'"
    unfolding isValid_iff by blast
  from u ij bi bj have lt: "i' < 9" "j' < 9" by (auto simp: in_box_def)
  from c z n have "(i', j') \<noteq> (i, j)" by auto
  with u have "peer (i, j) (i', j')" by (auto simp: peer_def)
  with lt c show ?thesis by blast
qed

lemma completes_value_valid:
  assumes sh: "shape board" and ij: "i < 9" "j < 9" and z: "cell board i j = 0"
    and c: "completes board board'"
  shows "isValid board i j (cell board' i j)"
proof (rule ccontr)
  assume inv: "\<not> isValid board i j (cell board' i j)"
  from c ij z have f: "1 \<le> cell board' i j"
    "\<forall>i' < 9. \<forall>j' < 9. peer (i, j) (i', j') \<longrightarrow> cell board' i' j' \<noteq> cell board' i j"
    unfolding completes_def by blast+
  from f(1) have "cell board' i j \<noteq> 0" by simp
  from isValid_false_peer [OF sh ij z this inv]
  obtain i' j' where p: "i' < 9" "j' < 9" "peer (i, j) (i', j')"
    and e: "cell board i' j' = cell board' i j" by blast
  from e f(1) have "cell board i' j' \<noteq> 0" by simp
  with c p have "cell board' i' j' = cell board i' j'" unfolding completes_def by blast
  with e f(2) p show False by auto
qed

lemma completes_set:
  assumes sh: "shape board" and ij: "i < 9" "j < 9" and z: "cell board i j = 0"
    and c: "completes board board'"
  shows "completes (set_cell board i j (cell board' i j)) board'"
proof -
  have get: "cell (set_cell board i j v) i' j' = (if i' = i \<and> j' = j then v else cell board i' j')"
    for i' j' v using cell_set_cell [OF sh ij] by simp
  from c ij z have "1 \<le> cell board' i j" unfolding completes_def by blast
  with c show ?thesis
    unfolding completes_def get by (auto split: if_splits)
qed


lemma try_from_complete:
  "rec_ok rec \<Longrightarrow> rec_complete rec \<Longrightarrow> shape board \<Longrightarrow> row < 9 \<Longrightarrow> col < 9 \<Longrightarrow>
   cell board row col = 0 \<Longrightarrow> try_from rec board row col num = Some (False, b) \<Longrightarrow>
   completes board board' \<Longrightarrow> cell board' row col < num"
proof (induction rec board row col num rule: try_from.induct)
  case (1 rec board row col num)
  note r = \<open>rec_ok rec\<close> and rcm = \<open>rec_complete rec\<close> and sh = \<open>shape board\<close>
    and rc = \<open>row < 9\<close> \<open>col < 9\<close> and z = \<open>cell board row col = 0\<close>
    and res = \<open>try_from rec board row col num = Some (False, b)\<close>
    and c = \<open>completes board board'\<close>
  from c rc z have le9: "cell board' row col \<le> 9" unfolding completes_def by blast
  show ?case
  proof (cases "num \<le> 9")
    case False
    with le9 show ?thesis by simp
  next
    case le: True
    show ?thesis
    proof (cases "isValid board row col num")
      case False
      then have "try_from rec board row col num = try_from rec board row col (num + 1)"
        using le by (subst try_from.simps) simp
      with res have "try_from rec board row col (num + 1) = Some (False, b)" by simp
      from "1.IH"(2) [OF le False r rcm sh rc z this c]
      have "cell board' row col < num + 1" .
      moreover from completes_value_valid [OF sh rc z c] False
      have "cell board' row col \<noteq> num" by auto
      ultimately show ?thesis by simp
    next
      case valid: True
      let ?b = "set_cell board row col num"
      have unf: "try_from rec board row col num =
         (case rec ?b of None \<Rightarrow> None
          | Some (True, b') \<Rightarrow> Some (True, b')
          | Some (False, b') \<Rightarrow> try_from rec (set_cell b' row col 0) row col (num + 1))"
        using le valid by (subst try_from.simps) simp
      have shb: "shape ?b" using sh by (rule shape_set_cell)
      show ?thesis
      proof (cases "rec ?b")
        case None
        with unf res show ?thesis by simp
      next
        case (Some x)
        obtain ok1 b1 where x: "x = (ok1, b1)" by (cases x)
        show ?thesis
        proof (cases ok1)
          case True
          with unf Some x res show ?thesis by simp
        next
          case False
          have x': "x = (False, b1)" using x False by simp
          from rec_okD [OF r shb, of ok1 b1] Some x False have "b1 = ?b" by auto
          then have restored: "set_cell b1 row col 0 = board"
            using z by (simp add: set_cell_twice set_cell_same)
          from unf Some x' res
          have nxt: "try_from rec (set_cell b1 row col 0) row col (num + 1) = Some (False, b)"
            by simp
          have "cell board' row col < num + 1"
          proof (rule "1.IH"(1) [OF le valid Some x' [symmetric] _ r rcm _ rc _ nxt])
            show "shape (set_cell b1 row col 0)" using restored sh by simp
            show "cell (set_cell b1 row col 0) row col = 0" using restored z by simp
            show "completes (set_cell b1 row col 0) board'" using restored c by simp
          qed simp
          moreover have "cell board' row col \<noteq> num"
          proof
            assume "cell board' row col = num"
            with completes_set [OF sh rc z c] have "completes ?b board'" by simp
            moreover from rcm shb Some x' have "\<not> completes ?b board'"
              unfolding rec_complete_def by blast
            ultimately show False by simp
          qed
          ultimately show ?thesis by simp
        qed
      qed
    qed
  qed
qed

lemma solveSudoku_complete: "rec_complete (solveSudoku k)"
proof (induction k)
  case 0
  show ?case by (simp add: rec_complete_def)
next
  case (Suc k)
  show ?case
    unfolding rec_complete_def
  proof (intro allI impI)
    fix board b board'
    assume sh: "shape board" and res: "solveSudoku (Suc k) board = Some (False, b)"
    show "\<not> completes board board'"
    proof
      assume c: "completes board board'"
      show False
      proof (cases "findEmptyCell board")
        case None
        with res show False by simp
      next
        case (Some p)
        obtain row col where p: "p = (row, col)" by (cases p)
        from findEmptyCell_Some [of board row col] Some p
        have rc: "row < 9" "col < 9" and z: "cell board row col = 0" by simp_all
        from res Some p have "try_from (solveSudoku k) board row col 1 = Some (False, b)"
          by simp
        from try_from_complete [OF solveSudoku_ok Suc sh rc z this c]
        have "cell board' row col < 1" .
        moreover from c rc z have "1 \<le> cell board' row col" unfolding completes_def by blast
        ultimately show False by simp
      qed
    qed
  qed
qed

lemma solve_decides:
  assumes sh: "shape board"
  shows "solve board = Some (False, board) \<longleftrightarrow> \<not> (\<exists>board'. completes board board')"
    and "(\<exists>board'. solve board = Some (True, board')) \<longleftrightarrow> (\<exists>board'. completes board board')"
proof -
  have lt: "empty_count board < 82" using empty_count_le [of board] by simp
  from solveSudoku_total [OF sh lt] obtain ok b where r: "solve board = Some (ok, b)"
    by (auto simp: solve_def)
  have t: "completes board b" if "ok" 
    using solveSudoku_True [OF sh, of 82 b] r that by (simp add: solve_def)
  have f: "b = board \<and> (\<forall>board'. \<not> completes board board')" if "\<not> ok"
  proof -
    from r that have e: "solveSudoku 82 board = Some (False, b)" by (simp add: solve_def)
    from solveSudoku_False [OF sh e] solveSudoku_complete [of 82] sh e
    show ?thesis unfolding rec_complete_def by blast
  qed
  show "solve board = Some (False, board) \<longleftrightarrow> \<not> (\<exists>board'. completes board board')"
    using r t f by (cases ok) auto
  show "(\<exists>board'. solve board = Some (True, board')) \<longleftrightarrow> (\<exists>board'. completes board board')"
    using r t f by (cases ok) auto
qed


subsection \<open>A row with a repeated digit over empty rows\<close>

lemma filled_row_has_digit:
  assumes c: "completes board board'" and i: "i < 9"
    and z: "\<forall>j < 9. cell board i j = 0" and d: "1 \<le> d" "d \<le> 9"
  shows "\<exists>j < 9. cell board' i j = d"
proof -
  let ?h = "\<lambda>j. cell board' i j"
  from c i z have fill: "\<And>j. j < 9 \<Longrightarrow> 1 \<le> ?h j \<and> ?h j \<le> 9 \<and>
      (\<forall>i' < 9. \<forall>j' < 9. peer (i, j) (i', j') \<longrightarrow> cell board' i' j' \<noteq> ?h j)"
    unfolding completes_def by blast
  have inj: "inj_on ?h {..<9}"
  proof (rule inj_onI)
    fix j j' assume j: "j \<in> {..<9}" "j' \<in> {..<9}" and eq: "?h j = ?h j'"
    show "j = j'"
    proof (rule ccontr)
      assume "j \<noteq> j'"
      then have "peer (i, j) (i, j')" by (simp add: peer_def)
      with fill [of j] j i have "?h j' \<noteq> ?h j" by auto
      with eq show False by simp
    qed
  qed
  have sub: "?h ` {..<9} \<subseteq> {1..9}" using fill by auto
  have "card (?h ` {..<9}) = 9" using card_image [OF inj] by simp
  moreover have "card {1..9::int} = 9" by simp
  ultimately have "?h ` {..<9} = {1..9}" using sub by (intro card_subset_eq) simp_all
  moreover from d have "d \<in> {1..9}" by simp
  ultimately have "d \<in> ?h ` {..<9}" by simp
  then show ?thesis by auto
qed

lemma twin_row_no_completion:
  assumes r: "r < 9" and cs: "c1 < 9" "c2 < 9" "c1 \<noteq> c2"
    and t: "cell board r c1 = d" "cell board r c2 = d" and d: "1 \<le> d" "d \<le> 9"
    and rest: "\<forall>i < 9. \<forall>j < 9. i \<noteq> r \<longrightarrow> cell board i j = 0"
  shows "\<not> completes board board'"
proof
  assume c: "completes board board'"
  let ?A = "{..<9} - {r}" and ?B = "{..<9} - {c1, c2}"
  from c r cs t d have kept: "cell board' r c1 = d" "cell board' r c2 = d"
    unfolding completes_def by auto
  from c rest have fill: "\<And>i j. i < 9 \<Longrightarrow> j < 9 \<Longrightarrow> i \<noteq> r \<Longrightarrow>
      (\<forall>i' < 9. \<forall>j' < 9. peer (i, j) (i', j') \<longrightarrow> cell board' i' j' \<noteq> cell board' i j)"
    unfolding completes_def by blast
  have "\<forall>i \<in> ?A. \<exists>j. j < 9 \<and> cell board' i j = d"
    using filled_row_has_digit [OF c _ _ d] rest by auto
  then obtain f where f: "\<And>i. i \<in> ?A \<Longrightarrow> f i < 9 \<and> cell board' i (f i) = d"
    using bchoice [of ?A "\<lambda>i j. j < 9 \<and> cell board' i j = d"] by blast
  have other: "f i \<noteq> c" if i: "i \<in> ?A" and c: "c < 9" "cell board' r c = d" for i c
  proof
    assume e: "f i = c"
    from i have "peer (i, c) (r, c)" by (simp add: peer_def)
    with fill [of i c] i c r have "cell board' r c \<noteq> cell board' i c" by auto
    with f [OF i] e c show False by simp
  qed
  have sub: "f ` ?A \<subseteq> ?B"
    using f other [OF _ cs(1) kept(1)] other [OF _ cs(2) kept(2)] by auto
  have inj: "inj_on f ?A"
  proof (rule inj_onI)
    fix i i' assume i: "i \<in> ?A" "i' \<in> ?A" and e: "f i = f i'"
    show "i = i'"
    proof (rule ccontr)
      assume "i \<noteq> i'"
      then have "peer (i, f i) (i', f i)" by (simp add: peer_def)
      with fill [of i "f i"] i f [OF i(1)] have "cell board' i' (f i) \<noteq> cell board' i (f i)"
        by auto
      with f [OF i(1)] f [OF i(2)] e show False by simp
    qed
  qed
  have "card ?A \<le> card ?B" by (rule card_inj_on_le [OF inj sub]) simp
  moreover have "card ?A = 8" using r by simp
  moreover have "card ?B = 7" using cs by simp
  ultimately show False by simp
qed


subsection \<open>Forced cells, and the solution of the example\<close>

lemma grid_eqI:
  assumes a: "shape a" and b: "shape b"
    and e: "\<And>i j. i < 9 \<Longrightarrow> j < 9 \<Longrightarrow> cell a i j = cell b i j"
  shows "a = b"
proof (rule nth_equalityI)
  show "length a = length b" using a b by (simp add: shape_def)
next
  fix i assume "i < length a"
  with a have i: "i < 9" by (simp add: shape_def)
  show "a ! i = b ! i"
  proof (rule nth_equalityI)
    show "length (a ! i) = length (b ! i)" using shape_row [OF a i] shape_row [OF b i] by simp
  next
    fix j assume "j < length (a ! i)"
    with shape_row [OF a i] have "j < 9" by simp
    from e [OF i this] show "a ! i ! j = b ! i ! j" by (simp add: cell_def)
  qed
qed

lemma completes_full_eq:
  assumes sh: "shape full" and nz: "\<forall>i < 9. \<forall>j < 9. cell full i j \<noteq> 0"
    and c: "completes full board'"
  shows "board' = full"
proof (rule grid_eqI)
  from c show "shape board'" by (simp add: completes_def)
  show "shape full" by (rule sh)
  fix i j :: nat assume "i < 9" "j < 9"
  with c nz show "cell board' i j = cell full i j" unfolding completes_def by blast
qed

lemma forced_value:
  assumes sh: "shape board" and o: "only_candidate board i j v" and c: "completes board board'"
  shows "cell board' i j = v"
proof -
  from o have ij: "i < 9" "j < 9" and z: "cell board i j = 0"
    and all: "\<forall>n \<in> set [1..9]. n = v \<or> \<not> isValid board i j n"
    by (simp_all add: only_candidate_def list_all_iff)
  from c ij z have "1 \<le> cell board' i j \<and> cell board' i j \<le> 9"
    unfolding completes_def by blast
  then have "cell board' i j \<in> set [1..9]" by simp
  with all completes_value_valid [OF sh ij z c] show ?thesis by blast
qed

lemma fill_forced_completes:
  "shape board \<Longrightarrow> fill_forced board steps = Some full \<Longrightarrow> completes board board' \<Longrightarrow>
   shape full \<and> completes full board'"
proof (induction steps arbitrary: board)
  case Nil
  then show ?case by simp
next
  case (Cons s steps)
  obtain i j v where s: "s = (i, j, v)" by (cases s)
  from Cons.prems(2) s have o: "only_candidate board i j v"
    and f: "fill_forced (set_cell board i j v) steps = Some full"
    by (simp_all split: if_splits)
  from o have ij: "i < 9" "j < 9" and z: "cell board i j = 0"
    by (simp_all add: only_candidate_def)
  from forced_value [OF Cons.prems(1) o Cons.prems(3)] completes_set [OF Cons.prems(1) ij z Cons.prems(3)]
  have "completes (set_cell board i j v) board'" by simp
  from Cons.IH [OF shape_set_cell [OF Cons.prems(1)] f this] show ?case .
qed

lemma perm_1_9_distinct: "perm_1_9 xs \<Longrightarrow> distinct xs"
  unfolding perm_1_9_def using mset_eq_imp_distinct_iff [of xs "[1..9]"] by simp

lemma perm_1_9_range: "perm_1_9 xs \<Longrightarrow> x \<in> set xs \<Longrightarrow> 1 \<le> x \<and> x \<le> 9"
  unfolding perm_1_9_def using mset_eq_setD [of xs "[1..9]"] by auto

lemma distinct_map_nth:
  "distinct (map h [0..<9]) \<Longrightarrow> k < 9 \<Longrightarrow> k' < 9 \<Longrightarrow> k \<noteq> k' \<Longrightarrow> h k \<noteq> h k'"
  by (auto simp: distinct_map inj_on_def)

lemma box_index:
  fixes i j :: nat
  assumes "i < 9" "j < 9"
  shows "3 * ((3 * (i div 3) + j div 3) div 3) + (3 * (i mod 3) + j mod 3) div 3 = i"
    and "3 * ((3 * (i div 3) + j div 3) mod 3) + (3 * (i mod 3) + j mod 3) mod 3 = j"
    and "3 * (i div 3) + j div 3 < 9" and "3 * (i mod 3) + j mod 3 < 9"
proof -
  have b: "i div 3 < 3" "j div 3 < 3" "i mod 3 < 3" "j mod 3 < 3" using assms by simp_all
  then have "(3 * (i div 3) + j div 3) div 3 = i div 3" "(3 * (i mod 3) + j mod 3) div 3 = i mod 3"
    "(3 * (i div 3) + j div 3) mod 3 = j div 3" "(3 * (i mod 3) + j mod 3) mod 3 = j mod 3"
    by simp_all
  then show "3 * ((3 * (i div 3) + j div 3) div 3) + (3 * (i mod 3) + j mod 3) div 3 = i"
    and "3 * ((3 * (i div 3) + j div 3) mod 3) + (3 * (i mod 3) + j mod 3) mod 3 = j"
    by simp_all
  from b show "3 * (i div 3) + j div 3 < 9" "3 * (i mod 3) + j mod 3 < 9" by linarith+
qed

lemma solved_all_differ:
  assumes s: "solved board"
  shows "all_differ board"
  unfolding all_differ_def
proof (intro allI impI)
  fix i j i' j'
  assume ij: "i < 9" "j < 9" and ij': "i' < 9" "j' < 9" and p: "peer (i, j) (i', j')"
  from s have rows: "\<And>i. i < 9 \<Longrightarrow> distinct (row_cells board i)"
    and cols: "\<And>j. j < 9 \<Longrightarrow> distinct (col_cells board j)"
    and boxes: "\<And>b. b < 9 \<Longrightarrow> distinct (box_cells board b)"
    unfolding solved_def by (blast intro: perm_1_9_distinct)+
  from p consider (row) "i = i'" "j \<noteq> j'" | (col) "j = j'" "i \<noteq> i'"
    | (box) "in_box i j i' j'" "(i, j) \<noteq> (i', j')"
    by (auto simp: peer_def)
  then show "cell board i' j' \<noteq> cell board i j"
  proof cases
    case row
    from distinct_map_nth [OF rows [OF ij(1), unfolded row_cells_def] ij'(2) ij(2)] row
    show ?thesis by auto
  next
    case col
    from distinct_map_nth [OF cols [OF ij(2), unfolded col_cells_def] ij'(1) ij(1)] col
    show ?thesis by auto
  next
    case box
    let ?b = "3 * (i div 3) + j div 3"
    let ?k = "3 * (i mod 3) + j mod 3" and ?k' = "3 * (i' mod 3) + j' mod 3"
    from box(1) have b': "3 * (i' div 3) + j' div 3 = ?b" by (simp add: in_box_def)
    have ne: "?k' \<noteq> ?k"
    proof
      assume e: "?k' = ?k"
      from box_index(1,2) [OF ij] box_index(1,2) [OF ij'] b' e have "i' = i" "j' = j"
        by metis+
      with box(2) show False by simp
    qed
    from distinct_map_nth [OF boxes [OF box_index(3) [OF ij], unfolded box_cells_def]
        box_index(4) [OF ij'] box_index(4) [OF ij] ne]
    have "cell board (3 * (?b div 3) + ?k' div 3) (3 * (?b mod 3) + ?k' mod 3)
        \<noteq> cell board (3 * (?b div 3) + ?k div 3) (3 * (?b mod 3) + ?k mod 3)" .
    with box_index(1,2) [OF ij] box_index(1,2) [OF ij', unfolded b'] show ?thesis by simp
  qed
qed

lemma solved_range:
  assumes s: "solved board" and ij: "i < 9" "j < 9"
  shows "1 \<le> cell board i j \<and> cell board i j \<le> 9"
proof -
  from s ij have "perm_1_9 (row_cells board i)" unfolding solved_def by blast
  moreover have "cell board i j \<in> set (row_cells board i)" using ij by (simp add: row_cells_def)
  ultimately show ?thesis by (rule perm_1_9_range)
qed

lemma solved_completes:
  assumes s: "solved board'" and e: "extends board board'"
  shows "completes board board'"
proof -
  from s have "shape board'" by (simp add: solved_def)
  moreover note solved_all_differ [OF s, unfolded all_differ_def] solved_range [OF s]
    e [unfolded extends_def]
  ultimately show ?thesis unfolding completes_def by blast
qed

lemma consistent_full_solved:
  assumes wf: "wf_grid board" and con: "consistent board"
    and nz: "\<forall>i < 9. \<forall>j < 9. cell board i j \<noteq> 0"
  shows "solved board"
proof -
  from wf have "shape board" by (simp add: wf_grid_def)
  then have "completes board board" using nz by (simp add: completes_full)
  with wf con show ?thesis by (rule completes_solved)
qed

lemma extends_code:
  "extends board board' \<longleftrightarrow>
     list_all (\<lambda>(i, j). cell board i j \<noteq> 0 \<longrightarrow> cell board' i j = cell board i j)
       (List.product [0..<9] [0..<9])"
  unfolding extends_def all_cells_iff ..

lemma solved_solution: "solved solution"
proof (rule consistent_full_solved)
  show "wf_grid solution" unfolding wf_grid_code by code_simp
  show "consistent solution" unfolding consistent_code [OF shape_solution] by code_simp
  show "\<forall>i < 9. \<forall>j < 9. cell solution i j \<noteq> 0" unfolding no_zero_code by code_simp
qed

lemma extends_example_solution: "extends example solution"
  unfolding extends_code by code_simp

lemma fill_forced_example: "fill_forced example example_steps = Some solution"
  by code_simp


subsection \<open>The log of writes\<close>

declare try_from_w.simps [simp del]

lemma try_from_w_erase:
  "(\<And>st. erase (rec_w st) = rec (fst st)) \<Longrightarrow>
   erase (try_from_w rec_w st row col num) = try_from rec (fst st) row col num"
proof (induction rec_w st row col num rule: try_from_w.induct)
  case (1 rec_w board log row col num)
  note e = "1.prems"
  show ?case
  proof (cases "num \<le> 9")
    case False
    then show ?thesis
      by (subst try_from_w.simps, subst try_from.simps) (simp add: erase_def)
  next
    case le: True
    show ?thesis
    proof (cases "isValid board row col num")
      case False
      have "try_from_w rec_w (board, log) row col num = try_from_w rec_w (board, log) row col (num + 1)"
        using le False by (subst try_from_w.simps) simp
      moreover have "try_from rec board row col num = try_from rec board row col (num + 1)"
        using le False by (subst try_from.simps) simp
      ultimately show ?thesis using "1.IH"(2) [OF le False e] by simp
    next
      case valid: True
      let ?st1 = "(set_cell board row col num, log @ [(row, col, cell board row col, num)])"
      have unfw: "try_from_w rec_w (board, log) row col num =
         (case rec_w ?st1 of None \<Rightarrow> None
          | Some (True, st') \<Rightarrow> Some (True, st')
          | Some (False, board', log') \<Rightarrow>
              try_from_w rec_w (set_cell board' row col 0,
                 log' @ [(row, col, cell board' row col, 0)]) row col (num + 1))"
        using le valid by (subst try_from_w.simps) simp
      have unf: "try_from rec board row col num =
         (case rec (set_cell board row col num) of None \<Rightarrow> None
          | Some (True, b') \<Rightarrow> Some (True, b')
          | Some (False, b') \<Rightarrow> try_from rec (set_cell b' row col 0) row col (num + 1))"
        using le valid by (subst try_from.simps) simp
      have r: "erase (rec_w ?st1) = rec (set_cell board row col num)" using e [of ?st1] by simp
      show ?thesis
      proof (cases "rec_w ?st1")
        case None
        with r have "rec (set_cell board row col num) = None" by (simp add: erase_def)
        with None unfw unf show ?thesis by (simp add: erase_def)
      next
        case (Some x)
        obtain ok1 b1 l1 where x: "x = (ok1, b1, l1)" by (cases x)
        from r Some x have r': "rec (set_cell board row col num) = Some (ok1, b1)"
          by (simp add: erase_def)
        show ?thesis
        proof (cases ok1)
          case True
          with unfw unf Some x r' show ?thesis by (simp add: erase_def)
        next
          case False
          have x': "x = (False, b1, l1)" using x False by simp
          have "erase (try_from_w rec_w (set_cell b1 row col 0,
                 l1 @ [(row, col, cell b1 row col, 0)]) row col (num + 1))
              = try_from rec (set_cell b1 row col 0) row col (num + 1)"
            using "1.IH"(1) [OF le valid Some x' [symmetric] _ refl e] by simp
          with unfw unf Some x' r' False show ?thesis by simp
        qed
      qed
    qed
  qed
qed

lemma solveSudoku_w_erase: "erase (solveSudoku_w k st) = solveSudoku k (fst st)"
proof (induction k arbitrary: st)
  case 0
  show ?case by (simp add: erase_def)
next
  case (Suc k)
  show ?case
  proof (cases "findEmptyCell (fst st)")
    case None
    then show ?thesis by (cases st) (simp add: erase_def)
  next
    case (Some p)
    obtain row col where p: "p = (row, col)" by (cases p)
    from try_from_w_erase [of "solveSudoku_w k" "solveSudoku k" st row col 1] Suc.IH
    have "erase (try_from_w (solveSudoku_w k) st row col 1)
        = try_from (solveSudoku k) (fst st) row col 1" by simp
    with Some p show ?thesis by simp
  qed
qed

lemma replay_append: "replay cur (ws @ ws') = replay (replay cur ws) ws'"
  by (induction cur ws rule: replay.induct) simp_all

lemma writes_ok_append:
  "writes_ok entry cur (ws @ ws') \<longleftrightarrow>
     writes_ok entry cur ws \<and> writes_ok entry (replay cur ws) ws'"
  by (induction entry cur ws rule: writes_ok.induct) auto

lemma writes_ok_mono:
  "(\<And>i j. i < 9 \<Longrightarrow> j < 9 \<Longrightarrow> cell b1 i j = 0 \<Longrightarrow> cell b0 i j = 0) \<Longrightarrow>
   writes_ok b1 cur ws \<Longrightarrow> writes_ok b0 cur ws"
  by (induction b1 cur ws rule: writes_ok.induct) auto

lemma rec_w_okD:
  "rec_w_ok rec \<Longrightarrow> shape board \<Longrightarrow> rec (board, log) = Some (ok, board', log') \<Longrightarrow>
     (\<exists>ws. log' = log @ ws \<and> writes_ok board board ws \<and> board' = replay board ws) \<and>
     (\<not> ok \<longrightarrow> board' = board)"
  unfolding rec_w_ok_def by blast

lemma try_from_w_ok:
  "rec_w_ok rec \<Longrightarrow> shape (fst st) \<Longrightarrow> row < 9 \<Longrightarrow> col < 9 \<Longrightarrow> cell (fst st) row col = 0 \<Longrightarrow>
   1 \<le> num \<Longrightarrow> try_from_w rec st row col num = Some (ok, board', log') \<Longrightarrow>
     (\<exists>ws. log' = snd st @ ws \<and> writes_ok (fst st) (fst st) ws \<and> board' = replay (fst st) ws) \<and>
     (\<not> ok \<longrightarrow> board' = fst st)"
proof (induction rec st row col num rule: try_from_w.induct)
  case (1 rec board log row col num)
  from "1.prems" have r: "rec_w_ok rec" and sh: "shape board" and rc: "row < 9" "col < 9"
    and z: "cell board row col = 0" and n1: "1 \<le> num"
    and res: "try_from_w rec (board, log) row col num = Some (ok, board', log')"
    by simp_all
  show ?case
  proof (cases "num \<le> 9")
    case False
    then have "try_from_w rec (board, log) row col num = Some (False, board, log)"
      by (subst try_from_w.simps) simp
    with res have "ok = False" "board' = board" "log' = log" by simp_all
    then show ?thesis by simp
  next
    case le: True
    show ?thesis
    proof (cases "isValid board row col num")
      case False
      then have "try_from_w rec (board, log) row col num
          = try_from_w rec (board, log) row col (num + 1)"
        using le by (subst try_from_w.simps) simp
      with res have "try_from_w rec (board, log) row col (num + 1) = Some (ok, board', log')"
        by simp
      from "1.IH"(2) [OF le False r _ rc _ _ this] sh z n1 show ?thesis by simp
    next
      case valid: True
      let ?b1 = "set_cell board row col num"
      let ?w1 = "(row, col, cell board row col, num)"
      have unf: "try_from_w rec (board, log) row col num =
         (case rec (?b1, log @ [?w1]) of None \<Rightarrow> None
          | Some (True, st') \<Rightarrow> Some (True, st')
          | Some (False, b', l') \<Rightarrow>
              try_from_w rec (set_cell b' row col 0,
                 l' @ [(row, col, cell b' row col, 0)]) row col (num + 1))"
        using le valid by (subst try_from_w.simps) simp
      have shb: "shape ?b1" using sh by (rule shape_set_cell)
      have get: "cell ?b1 i j = (if i = row \<and> j = col then num else cell board i j)" for i j
        using cell_set_cell [OF sh rc] by simp
      have w1: "writes_ok board board (?w1 # ws) \<longleftrightarrow> writes_ok board ?b1 ws" for ws
        using rc z n1 le by simp
      have mono: "writes_ok ?b1 cur ws \<Longrightarrow> writes_ok board cur ws" for cur ws
        by (rule writes_ok_mono [of ?b1 board]) (use n1 in \<open>simp_all add: get split: if_splits\<close>)
      show ?thesis
      proof (cases "rec (?b1, log @ [?w1])")
        case None
        with unf res show ?thesis by simp
      next
        case (Some x)
        obtain ok1 b1 l1 where x: "x = (ok1, b1, l1)" by (cases x)
        from rec_w_okD [OF r shb, of "log @ [?w1]" ok1 b1 l1] Some x
        obtain ws1 where l1: "l1 = (log @ [?w1]) @ ws1" and ok1: "writes_ok ?b1 ?b1 ws1"
          and b1: "b1 = replay ?b1 ws1" and same: "\<not> ok1 \<longrightarrow> b1 = ?b1"
          by blast
        show ?thesis
        proof (cases ok1)
          case True
          with unf Some x res have eq: "ok = True" "board' = b1" "log' = l1" by simp_all
          have "log' = log @ (?w1 # ws1)" using eq l1 by simp
          moreover have "writes_ok board board (?w1 # ws1)" unfolding w1 using ok1 by (rule mono)
          moreover have "board' = replay board (?w1 # ws1)" using eq b1 by simp
          ultimately show ?thesis using eq unfolding fst_conv snd_conv by blast
        next
          case False
          with same have b1': "b1 = ?b1" by simp
          then have restored: "set_cell b1 row col 0 = board"
            using z by (simp add: set_cell_twice set_cell_same)
          have old: "cell b1 row col = num" using b1' by (simp add: get)
          let ?w2 = "(row, col, cell b1 row col, 0::int)"
          have x': "x = (False, b1, l1)" using x False by simp
          from unf Some x' res
          have nxt: "try_from_w rec (set_cell b1 row col 0, l1 @ [?w2]) row col (num + 1)
              = Some (ok, board', log')" by simp
          have "(\<exists>ws. log' = snd (set_cell b1 row col 0, l1 @ [?w2]) @ ws \<and>
                  writes_ok (fst (set_cell b1 row col 0, l1 @ [?w2]))
                    (fst (set_cell b1 row col 0, l1 @ [?w2])) ws \<and>
                  board' = replay (fst (set_cell b1 row col 0, l1 @ [?w2])) ws) \<and>
                (\<not> ok \<longrightarrow> board' = fst (set_cell b1 row col 0, l1 @ [?w2]))"
          proof (rule "1.IH"(1) [OF le valid Some x' [symmetric] _ refl r _ rc _ _ nxt])
            show "shape (fst (set_cell b1 row col 0, l1 @ [?w2]))" using restored sh by simp
            show "cell (fst (set_cell b1 row col 0, l1 @ [?w2])) row col = 0"
              using restored z by simp
            show "1 \<le> num + 1" using n1 by simp
          qed simp
          then obtain ws2 where l': "log' = (l1 @ [?w2]) @ ws2"
            and ok2: "writes_ok board board ws2" and b': "board' = replay board ws2"
            and same': "\<not> ok \<longrightarrow> board' = board"
            unfolding fst_conv snd_conv restored by blast
          let ?ws = "?w1 # ws1 @ ?w2 # ws2"
          have "log' = log @ ?ws" using l' l1 by simp
          moreover have "writes_ok board board ?ws"
          proof -
            have "writes_ok board ?b1 ws1" using ok1 by (rule mono)
            moreover have "replay ?b1 ws1 = ?b1" using b1 b1' by simp
            moreover have "writes_ok board ?b1 (?w2 # ws2)"
              using rc z old b1' le n1 ok2 restored by simp
            ultimately show ?thesis unfolding w1 writes_ok_append by simp
          qed
          moreover have "board' = replay board ?ws"
          proof -
            have "replay board ?ws = replay (replay ?b1 ws1) (?w2 # ws2)"
              by (simp add: replay_append)
            also have "\<dots> = replay (set_cell b1 row col 0) ws2" using b1 by simp
            finally show ?thesis using b' restored by simp
          qed
          ultimately show ?thesis using same' unfolding fst_conv snd_conv by blast
        qed
      qed
    qed
  qed
qed

lemma solveSudoku_w_ok: "rec_w_ok (solveSudoku_w k)"
proof (induction k)
  case 0
  show ?case by (simp add: rec_w_ok_def)
next
  case (Suc k)
  show ?case
    unfolding rec_w_ok_def
  proof (intro allI impI)
    fix board log ok board' log'
    assume sh: "shape board"
      and res: "solveSudoku_w (Suc k) (board, log) = Some (ok, board', log')"
    show "(\<exists>ws. log' = log @ ws \<and> writes_ok board board ws \<and> board' = replay board ws) \<and>
          (\<not> ok \<longrightarrow> board' = board)"
    proof (cases "findEmptyCell board")
      case None
      with res have "ok" "board' = board" "log' = log" by simp_all
      then show ?thesis by simp
    next
      case (Some p)
      obtain row col where p: "p = (row, col)" by (cases p)
      from findEmptyCell_Some [of board row col] Some p
      have rc: "row < 9" "col < 9" and z: "cell board row col = 0" by simp_all
      from res Some p
      have "try_from_w (solveSudoku_w k) (board, log) row col 1 = Some (ok, board', log')"
        by simp
      from try_from_w_ok [OF Suc _ rc _ _ this] sh z show ?thesis by simp
    qed
  qed
qed

lemma states_extends:
  "writes_ok entry cur ws \<Longrightarrow> shape cur \<Longrightarrow> extends entry cur \<Longrightarrow>
   (\<forall>s \<in> set (states cur ws). shape s \<and> extends entry s) \<and> extends entry (replay cur ws)"
proof (induction entry cur ws rule: writes_ok.induct)
  case (1 entry cur)
  then show ?case by simp
next
  case (2 entry cur r c old new ws)
  from "2.prems"(1) have rc: "r < 9" "c < 9" and z: "cell entry r c = 0"
    and rest: "writes_ok entry (set_cell cur r c new) ws" by simp_all
  have sh: "shape (set_cell cur r c new)" using "2.prems"(2) by (rule shape_set_cell)
  have ex: "extends entry (set_cell cur r c new)"
    using "2.prems"(3) z unfolding extends_def cell_set_cell [OF "2.prems"(2) rc] by auto
  from "2.IH" [OF rest sh ex] sh ex show ?case by simp
qed


section \<open>The claims\<close>


text \<open>
  C3. Whenever \<open>solveSudoku\<close> returns false on a 9x9 board, the board it leaves is the
  board at entry, cell for cell: every tentative placement of the failed search has been
  reset to 0, the one of the top-level call included.
\<close>

theorem solve_false_restores:
  "shape board \<Longrightarrow> solveSudoku k board = Some (False, board') \<Longrightarrow> board' = board"
proof -
  assume sh: "shape board" and res: "solveSudoku k board = Some (False, board')"
  have "rec_ok (solveSudoku k)" by (rule solveSudoku_ok)
  from rec_okD [OF this sh res] show "board' = board" by simp
qed

theorem solve_false_restores_witness:
  "shape stuck \<and> solveSudoku 82 stuck = Some (False, stuck)"
proof -
  have "map_option fst (solveSudoku 82 stuck) = Some False"
    by code_simp
  then obtain b where b: "solveSudoku 82 stuck = Some (False, b)"
    by (cases "solveSudoku 82 stuck") auto
  from solve_false_restores [OF shape_stuck b] b shape_stuck show ?thesis by simp
qed

text \<open>
  C6. On a 9x9 board \<open>findEmptyCell\<close> returns the first cell holding 0 in row-major order
  (\<open>before\<close> is the strict row-major order on coordinates), and returns \<open>null\<close> exactly
  when no cell holds 0.
\<close>

theorem findEmptyCell_first_zero:
  "shape board \<Longrightarrow>
     (findEmptyCell board = None \<longleftrightarrow> (\<forall>i < 9. \<forall>j < 9. cell board i j \<noteq> 0)) \<and>
     (\<forall>r c. findEmptyCell board = Some (r, c) \<longleftrightarrow>
        r < 9 \<and> c < 9 \<and> cell board r c = 0 \<and>
        (\<forall>i < 9. \<forall>j < 9. before (i, j) (r, c) \<longrightarrow> cell board i j \<noteq> 0))"
proof (intro conjI allI)
  show "findEmptyCell board = None \<longleftrightarrow> (\<forall>i < 9. \<forall>j < 9. cell board i j \<noteq> 0)"
    by (auto simp: findEmptyCell_None)
next
  fix r c
  show "findEmptyCell board = Some (r, c) \<longleftrightarrow>
        r < 9 \<and> c < 9 \<and> cell board r c = 0 \<and>
        (\<forall>i < 9. \<forall>j < 9. before (i, j) (r, c) \<longrightarrow> cell board i j \<noteq> 0)"
  proof
    assume "findEmptyCell board = Some (r, c)"
    from findEmptyCell_Some [OF this]
    show "r < 9 \<and> c < 9 \<and> cell board r c = 0 \<and>
        (\<forall>i < 9. \<forall>j < 9. before (i, j) (r, c) \<longrightarrow> cell board i j \<noteq> 0)" by blast
  next
    assume a: "r < 9 \<and> c < 9 \<and> cell board r c = 0 \<and>
        (\<forall>i < 9. \<forall>j < 9. before (i, j) (r, c) \<longrightarrow> cell board i j \<noteq> 0)"
    show "findEmptyCell board = Some (r, c)"
      by (rule findEmptyCell_first) (use a in blast)+
  qed
qed

theorem findEmptyCell_first_zero_witness:
  "shape example \<and> findEmptyCell example = Some (0, 2) \<and> cell example 0 2 = 0 \<and>
   cell example 0 1 \<noteq> 0 \<and> findEmptyCell solution \<noteq> Some (4, 4)"
proof -
  have f: "findEmptyCell example = Some (0, 2)" by code_simp
  have b: "before (0, 1) (0, 2)" by (simp add: before_def)
  have n: "cell solution 4 4 \<noteq> 0" by (simp add: cell_def solution_def)
  from findEmptyCell_first_zero [OF shape_example]
  have "findEmptyCell example = Some (0, 2) \<longleftrightarrow>
        (0::nat) < 9 \<and> (2::nat) < 9 \<and> cell example 0 2 = 0 \<and>
        (\<forall>i < 9. \<forall>j < 9. before (i, j) (0, 2) \<longrightarrow> cell example i j \<noteq> 0)" by blast
  with f have z: "cell example 0 2 = 0"
    and a: "\<forall>i < 9. \<forall>j < 9. before (i, j) (0, 2) \<longrightarrow> cell example i j \<noteq> 0" by simp_all
  from a have "(0::nat) < 9 \<longrightarrow> (1::nat) < 9 \<longrightarrow> before (0, 1) (0, 2) \<longrightarrow> cell example 0 1 \<noteq> 0"
    by blast
  with z b have "cell example 0 2 = 0 \<and> cell example 0 1 \<noteq> 0" by simp
  moreover from findEmptyCell_first_zero [OF shape_solution] n
  have "findEmptyCell solution \<noteq> Some (4, 4)" by blast
  ultimately show ?thesis using f shape_example by simp
qed

text \<open>
  C7. On a 9x9 board, for an empty cell \<open>(row, col)\<close> and a candidate 1..9, \<open>isValid\<close>
  returns true exactly when the candidate occurs in no cell of the row, no cell of the
  column and no cell of the 3x3 box of \<open>(row, col)\<close>. \<open>isValid\<close> only reads the board: it
  returns a flag and no board.
\<close>

theorem isValid_correct:
  "shape board \<Longrightarrow> row < 9 \<Longrightarrow> col < 9 \<Longrightarrow> cell board row col = 0 \<Longrightarrow> 1 \<le> num \<Longrightarrow> num \<le> 9 \<Longrightarrow>
   isValid board row col num \<longleftrightarrow>
     (\<forall>j < 9. cell board row j \<noteq> num) \<and>
     (\<forall>i < 9. cell board i col \<noteq> num) \<and>
     (\<forall>i < 9. \<forall>j < 9. i div 3 = row div 3 \<and> j div 3 = col div 3 \<longrightarrow> cell board i j \<noteq> num)"
proof -
  assume rc: "row < 9" "col < 9"
  have "i div 3 = row div 3 \<Longrightarrow> i < 9" for i using rc(1) by presburger
  moreover have "j div 3 = col div 3 \<Longrightarrow> j < 9" for j using rc(2) by presburger
  ultimately have "in_box row col i j \<longleftrightarrow>
      i < 9 \<and> j < 9 \<and> i div 3 = row div 3 \<and> j div 3 = col div 3"
    for i j unfolding in_box_def by blast
  then show ?thesis unfolding isValid_iff by auto
qed

theorem isValid_correct_witness:
  "shape example \<and> cell example 0 2 = 0 \<and> isValid example 0 2 1 \<and> cell example 0 5 \<noteq> 1 \<and>
   cell example 2 2 = 8 \<and> \<not> isValid example 0 2 8"
proof -
  have z: "cell example 0 2 = 0" by (simp add: cell_def example_def)
  have e: "cell example 2 2 = 8" by (simp add: cell_def example_def)
  have v: "isValid example 0 2 1" by code_simp
  from isValid_correct [OF shape_example _ _ z, of 1] v
  have "cell example 0 5 \<noteq> 1" by simp
  moreover from isValid_correct [OF shape_example _ _ z, of 8] e
  have "\<not> isValid example 0 2 8" by auto
  ultimately show ?thesis using z e v shape_example by simp
qed

text \<open>
  C1. For a well-formed 9x9 board whose non-zero cells satisfy the uniqueness constraints,
  if \<open>solveSudoku\<close> returns true then the board it leaves has no zero, and every row,
  every column and every 3x3 box of it is a permutation of 1..9.
\<close>

theorem solve_true_solved:
  "wf_grid board \<Longrightarrow> consistent board \<Longrightarrow> solveSudoku k board = Some (True, board') \<Longrightarrow>
   solved board'"
proof -
  assume wf: "wf_grid board" and con: "consistent board"
    and res: "solveSudoku k board = Some (True, board')"
  from wf have "shape board" by (simp add: wf_grid_def)
  from solveSudoku_True [OF this res] have "completes board board'" .
  with wf con show "solved board'" by (rule completes_solved)
qed

theorem solve_true_solved_witness:
  "wf_grid almost \<and> consistent almost \<and> solveSudoku 82 almost = Some (True, solution) \<and>
   solved solution"
proof -
  have sh: "shape almost" by (simp add: shape_def almost_def)
  have wf: "wf_grid almost" unfolding wf_grid_code by code_simp
  have con: "consistent almost" unfolding consistent_code [OF sh] by code_simp
  have res: "solveSudoku 82 almost = Some (True, solution)" by code_simp
  from solve_true_solved [OF wf con res] wf con res show ?thesis by simp
qed

text \<open>
  C4. On a 9x9 board without zero cells whose rows, columns and boxes hold no repeated
  digit, \<open>solve\<close> returns true and leaves the board unchanged; and solving a board that
  \<open>solve\<close> has solved returns true again without altering it.
\<close>

theorem solve_fixed_point:
  "shape board \<Longrightarrow>
     ((\<forall>i < 9. \<forall>j < 9. cell board i j \<noteq> 0) \<and>
      (\<forall>i < 9. distinct (row_cells board i)) \<and>
      (\<forall>j < 9. distinct (col_cells board j)) \<and>
      (\<forall>b < 9. distinct (box_cells board b))
      \<longrightarrow> solve board = Some (True, board)) \<and>
     (\<forall>board'. solve board = Some (True, board') \<longrightarrow> solve board' = Some (True, board'))"
proof (intro conjI impI allI)
  assume "(\<forall>i < 9. \<forall>j < 9. cell board i j \<noteq> 0) \<and>
      (\<forall>i < 9. distinct (row_cells board i)) \<and>
      (\<forall>j < 9. distinct (col_cells board j)) \<and>
      (\<forall>b < 9. distinct (box_cells board b))"
  then have "findEmptyCell board = None" by (simp add: no_zero_code)
  then show "solve board = Some (True, board)" by (simp add: solve_def eval_nat_numeral)
next
  fix board'
  assume sh: "shape board" and res: "solve board = Some (True, board')"
  from solveSudoku_True [OF sh res [unfolded solve_def]]
  have c: "completes board board'" .
  have "cell board' i j \<noteq> 0" if ij: "i < 9" "j < 9" for i j
  proof (cases "cell board i j = 0")
    case True
    with c ij have "1 \<le> cell board' i j" unfolding completes_def by blast
    then show ?thesis by simp
  next
    case False
    with c ij have "cell board' i j = cell board i j" unfolding completes_def by blast
    with False show ?thesis by simp
  qed
  then have "findEmptyCell board' = None" by (simp add: findEmptyCell_None)
  then show "solve board' = Some (True, board')" by (simp add: solve_def eval_nat_numeral)
qed

theorem solve_fixed_point_witness:
  "shape solution \<and> solve solution = Some (True, solution) \<and>
   shape almost \<and> solve almost = Some (True, solution)"
proof -
  have sh: "shape almost" by (simp add: shape_def almost_def)
  have nz: "\<forall>i < 9. \<forall>j < 9. cell solution i j \<noteq> 0" unfolding no_zero_code by code_simp
  have r: "\<forall>i < 9. distinct (row_cells solution i)" unfolding all_lt9 by code_simp
  have c: "\<forall>j < 9. distinct (col_cells solution j)" unfolding all_lt9 by code_simp
  have b: "\<forall>b < 9. distinct (box_cells solution b)" unfolding all_lt9 by code_simp
  have res: "solve almost = Some (True, solution)" by code_simp
  from solve_fixed_point [OF shape_solution] nz r c b
  have "solve solution = Some (True, solution)" by blast
  moreover from solve_fixed_point [OF sh] res
  have "solve solution = Some (True, solution)" by blast
  ultimately show ?thesis using shape_solution sh res by simp
qed

text \<open>
  C5. On every 9x9 board \<open>solve\<close> returns, with true or with false: each nested call
  works on a board with one empty cell less, so a recursion bound above the number of
  empty cells is never reached, and every such bound gives the same result.
\<close>

theorem solve_terminates:
  "shape board \<Longrightarrow>
     (\<exists>ok board'. solve board = Some (ok, board')) \<and>
     (\<forall>k. empty_count board < k \<longrightarrow> solveSudoku k board = solve board)"
proof -
  assume sh: "shape board"
  have lt: "empty_count board < 82" using empty_count_le [of board] by simp
  from solveSudoku_total [OF sh lt] have "\<exists>ok board'. solve board = Some (ok, board')"
    by (auto simp: solve_def)
  moreover have "\<forall>k. empty_count board < k \<longrightarrow> solveSudoku k board = solve board"
    using solveSudoku_enough [OF sh _ lt] by (simp add: solve_def)
  ultimately show ?thesis ..
qed

theorem solve_terminates_witness:
  "shape stuck \<and> solve stuck = Some (False, stuck) \<and> solveSudoku 100 stuck = Some (False, stuck)"
proof -
  have "empty_count stuck < 100" using empty_count_le [of stuck] by simp
  with solve_terminates [OF shape_stuck]
  obtain ok b where r: "solve stuck = Some (ok, b)" and k: "solveSudoku 100 stuck = solve stuck"
    by blast
  have "map_option fst (solve stuck) = Some False" by code_simp
  with r have "ok = False" by simp
  with r solveSudoku_False [OF shape_stuck, of 82 b] have "solve stuck = Some (False, stuck)"
    by (simp add: solve_def)
  with k shape_stuck show ?thesis by simp
qed

text \<open>
  C10. On a 9x9 board without zero cells \<open>solve\<close> returns true at once (no nested call is
  made) and leaves the board unchanged, whether or not the board satisfies the
  uniqueness constraints: the base case checks nothing.
\<close>

theorem solve_full_board_unchecked:
  "shape board \<Longrightarrow> (\<forall>i < 9. \<forall>j < 9. cell board i j \<noteq> 0) \<Longrightarrow>
     solve board = Some (True, board) \<and> solveSudoku (Suc 0) board = Some (True, board)"
proof -
  assume "\<forall>i < 9. \<forall>j < 9. cell board i j \<noteq> 0"
  then have "findEmptyCell board = None" by (simp add: no_zero_code)
  then show ?thesis by (simp add: solve_def eval_nat_numeral)
qed

theorem solve_full_board_unchecked_witness:
  "shape clash \<and> cell clash 0 0 = 3 \<and> cell clash 0 1 = 3 \<and> solve clash = Some (True, clash)"
proof -
  have sh: "shape clash" by (simp add: shape_def clash_def)
  have nz: "\<forall>i < 9. \<forall>j < 9. cell clash i j \<noteq> 0" unfolding no_zero_code by code_simp
  have "cell clash 0 0 = 3" "cell clash 0 1 = 3" by (simp_all add: cell_def clash_def)
  with solve_full_board_unchecked [OF sh nz] sh show ?thesis by simp
qed

text \<open>
  C2 (as stated, refuted). A board with two identical non-zero digits in one row is not
  always rejected: \<open>clash_open\<close> holds 3 twice in row 0 and has one empty cell, and
  \<open>solve\<close> fills that cell and returns true.
\<close>

theorem duplicate_row_accepted:
  "shape clash_open \<and> cell clash_open 0 0 = 3 \<and> cell clash_open 0 1 = 3 \<and>
   cell clash_open 8 8 = 0 \<and> solve clash_open = Some (True, clash)"
proof -
  have "solve clash_open = Some (True, clash)" by code_simp
  moreover have "shape clash_open" by (simp add: shape_def clash_open_def)
  moreover have "cell clash_open 0 0 = 3" "cell clash_open 0 1 = 3" "cell clash_open 8 8 = 0"
    by (simp_all add: cell_def clash_open_def)
  ultimately show ?thesis by simp
qed

text \<open>
  C2 (amended). On a 9x9 board \<open>solve\<close> returns false exactly when the empty cells cannot
  be filled with digits 1..9 such that every filled cell differs from all other cells of
  its row, column and box (\<open>completes\<close>); the non-zero cells of the input are never
  compared with each other. This is the case whenever some row holds a digit 1..9 twice
  and all cells outside that row are 0, in particular for the board whose row 0 is
  \<open>[1,1,0,0,0,0,0,0,0]\<close> and whose other 72 cells are 0: \<open>solve\<close> returns false there.
\<close>

theorem solve_false_iff_no_completion:
  "shape board \<Longrightarrow>
     (solve board = Some (False, board) \<longleftrightarrow> \<not> (\<exists>board'. completes board board')) \<and>
     (r < 9 \<and> c1 < 9 \<and> c2 < 9 \<and> c1 \<noteq> c2 \<and> cell board r c1 = d \<and> cell board r c2 = d \<and>
      1 \<le> d \<and> d \<le> 9 \<and> (\<forall>i < 9. \<forall>j < 9. i \<noteq> r \<longrightarrow> cell board i j = 0)
      \<longrightarrow> solve board = Some (False, board)) \<and>
     solve twin_ones = Some (False, twin_ones)"
proof (intro conjI impI)
  assume sh: "shape board"
  show "solve board = Some (False, board) \<longleftrightarrow> \<not> (\<exists>board'. completes board board')"
    by (rule solve_decides(1) [OF sh])
  assume "r < 9 \<and> c1 < 9 \<and> c2 < 9 \<and> c1 \<noteq> c2 \<and> cell board r c1 = d \<and> cell board r c2 = d \<and>
      1 \<le> d \<and> d \<le> 9 \<and> (\<forall>i < 9. \<forall>j < 9. i \<noteq> r \<longrightarrow> cell board i j = 0)"
  then have "\<not> completes board board'" for board'
    using twin_row_no_completion [of r c1 c2 board d board'] by blast
  with solve_decides(1) [OF sh] show "solve board = Some (False, board)" by blast
next
  have sh: "shape twin_ones" by (simp add: shape_def twin_ones_def)
  have "\<forall>i < 9. \<forall>j < 9. i \<noteq> 0 \<longrightarrow> cell twin_ones i j = 0"
    unfolding all_cells_iff by code_simp
  moreover have "cell twin_ones 0 0 = 1" "cell twin_ones 0 1 = 1"
    by (simp_all add: cell_def twin_ones_def)
  ultimately have "\<not> completes twin_ones board'" for board'
    using twin_row_no_completion [of 0 0 1 twin_ones 1 board'] by simp
  with solve_decides(1) [OF sh] show "solve twin_ones = Some (False, twin_ones)" by blast
qed

theorem solve_false_iff_no_completion_witness:
  "shape twin_sevens \<and> cell twin_sevens 4 1 = 7 \<and> cell twin_sevens 4 5 = 7 \<and>
   solve twin_sevens = Some (False, twin_sevens) \<and>
   shape solution \<and> solve solution \<noteq> Some (False, solution) \<and> completes solution solution"
proof -
  have sh: "shape twin_sevens" by (simp add: shape_def twin_sevens_def)
  have rest: "\<forall>i < 9. \<forall>j < 9. i \<noteq> 4 \<longrightarrow> cell twin_sevens i j = 0"
    unfolding all_cells_iff by code_simp
  have t: "cell twin_sevens 4 1 = 7" "cell twin_sevens 4 5 = 7"
    by (simp_all add: cell_def twin_sevens_def)
  from solve_false_iff_no_completion [OF sh, of 4 1 5 7] rest t
  have "solve twin_sevens = Some (False, twin_sevens)" by simp
  moreover have "findEmptyCell solution = None" by code_simp
  then have nz: "\<forall>i j. i < 9 \<and> j < 9 \<longrightarrow> cell solution i j \<noteq> 0"
    by (simp add: findEmptyCell_None)
  have c: "completes solution solution" by (rule completes_full [OF shape_solution nz])
  with solve_false_iff_no_completion [OF shape_solution, of 0 0 0 0]
  have "solve solution \<noteq> Some (False, solution)" by blast
  ultimately show ?thesis using sh t c shape_solution by simp
qed

text \<open>
  C8. On the example board of \<open>loadExample\<close>, \<open>solve\<close> returns true and leaves the board
  \<open>solution\<close>, which is solved, keeps the givens of the example, and is the only solved
  board that keeps them.
\<close>

theorem solve_example:
  "solve example = Some (True, solution) \<and> solved solution \<and> extends example solution \<and>
   (\<forall>board'. solved board' \<and> extends example board' \<longrightarrow> board' = solution)"
proof -
  have nz: "\<forall>i < 9. \<forall>j < 9. cell solution i j \<noteq> 0" unfolding no_zero_code by code_simp
  have uniq: "board' = solution" if c: "completes example board'" for board'
  proof -
    from fill_forced_completes [OF shape_example fill_forced_example c]
    have "completes solution board'" ..
    with shape_solution nz show ?thesis by (rule completes_full_eq)
  qed
  have ex: "completes example solution"
    by (rule solved_completes [OF solved_solution extends_example_solution])
  with solve_decides(2) [OF shape_example]
  obtain b where b: "solve example = Some (True, b)" by blast
  from solveSudoku_True [OF shape_example b [unfolded solve_def]] have "b = solution"
    by (rule uniq)
  with b have "solve example = Some (True, solution)" by simp
  moreover have "\<forall>board'. solved board' \<and> extends example board' \<longrightarrow> board' = solution"
    using solved_completes uniq by blast
  ultimately show ?thesis using solved_solution extends_example_solution by blast
qed

theorem solve_example_witness:
  "solved solution \<and> extends example solution \<and> solve example = Some (True, solution) \<and>
   cell example 0 2 = 0 \<and> cell solution 0 2 = 4"
proof -
  from solve_example have a: "solved solution \<and> extends example solution"
    and r: "solve example = Some (True, solution)"
    and u: "solved solution \<and> extends example solution \<longrightarrow> solution = solution"
    by blast+
  have "cell example 0 2 = 0" "cell solution 0 2 = 4"
    by (simp_all add: cell_def example_def solution_def)
  with a r show ?thesis by simp
qed

text \<open>
  C9 (as stated, refuted). Not every write goes to a cell that holds 0 at the moment of
  the write: on the board \<open>stuck\<close> the search writes four times to cell (0,0), and the
  second and the fourth write (the backtrack steps) find the cell holding the digit
  placed before, 1 and 2.
\<close>

theorem backtrack_write_finds_digit:
  "solveSudoku_w 82 (stuck, []) =
     Some (False, stuck, [(0, 0, 0, 1), (0, 0, 1, 0), (0, 0, 0, 2), (0, 0, 2, 0)])"
  by code_simp

text \<open>
  C9 (amended). The logged run returns what \<open>solveSudoku\<close> returns. On a 9x9 board, for a
  call that returns true or false, every cell that is non-zero at entry holds its entry
  value at return and in every board between two writes of the search: every write goes
  to a cell that is empty at entry (one located by \<open>findEmptyCell\<close>); a placement finds
  the cell holding 0 and writes a digit 1..9, and a backtrack write finds a digit 1..9
  and writes 0 (\<open>writes_ok\<close>).
\<close>

theorem givens_never_overwritten:
  "erase (solveSudoku_w k (board, log)) = solveSudoku k board \<and>
   (shape board \<and> solveSudoku_w k (board, []) = Some (ok, board', ws) \<longrightarrow>
      writes_ok board board ws \<and> replay board ws = board' \<and>
      extends board board' \<and> (\<forall>s \<in> set (states board ws). extends board s))"
proof (intro conjI impI)
  show "erase (solveSudoku_w k (board, log)) = solveSudoku k board"
    using solveSudoku_w_erase [of k "(board, log)"] by simp
next
  assume a: "shape board \<and> solveSudoku_w k (board, []) = Some (ok, board', ws)"
  then have sh: "shape board" and res: "solveSudoku_w k (board, []) = Some (ok, board', ws)"
    by simp_all
  from rec_w_okD [OF solveSudoku_w_ok sh res]
  have w: "writes_ok board board ws" and r: "board' = replay board ws" by simp_all
  have "extends board board" by (simp add: extends_def)
  from states_extends [OF w sh this] r
  have "extends board board'" "\<forall>s \<in> set (states board ws). extends board s" by simp_all
  with w r show "writes_ok board board ws" "replay board ws = board'"
    "extends board board'" "\<forall>s \<in> set (states board ws). extends board s" by simp_all
qed

theorem givens_never_overwritten_witness:
  "shape almost \<and>
   solveSudoku_w 82 (almost, []) = Some (True, solution, [(0, 2, 0, 4), (4, 4, 0, 5), (8, 8, 0, 9)]) \<and>
   solveSudoku 82 almost = Some (True, solution) \<and>
   writes_ok almost almost [(0, 2, 0, 4), (4, 4, 0, 5), (8, 8, 0, 9)] \<and>
   extends almost solution"
proof -
  have sh: "shape almost" by (simp add: shape_def almost_def)
  have res: "solveSudoku_w 82 (almost, []) =
      Some (True, solution, [(0, 2, 0, 4), (4, 4, 0, 5), (8, 8, 0, 9)])" by code_simp
  from givens_never_overwritten [of 82 almost "[]" True solution
      "[(0, 2, 0, 4), (4, 4, 0, 5), (8, 8, 0, 9)]"] sh res
  have "solveSudoku 82 almost = Some (True, solution)"
    and "writes_ok almost almost [(0, 2, 0, 4), (4, 4, 0, 5), (8, 8, 0, 9)]"
    and "extends almost solution"
    by (simp_all add: erase_def)
  with sh res show ?thesis by simp
qed

end
